theory Spec2Isabelle
  imports Complex_Main "HOL-Library.Word" "HOL-Library.Multiset"
begin

unbundle bit_operations_syntax

section \<open>Data model of hashtable.h\<close>

text \<open>
  The embedding follows the LP64 ABI the header is normally compiled for:
  \<^verbatim>\<open>unsigned long\<close> is a 64-bit word and plain \<^verbatim>\<open>char\<close> is signed.
  \<^verbatim>\<open>size_t\<close> counters (\<^verbatim>\<open>n\<close>, \<^verbatim>\<open>cap\<close>, \<^verbatim>\<open>ins_loc\<close>, \<^verbatim>\<open>loc\<close>, probe lengths)
  are natural numbers: the \<^verbatim>\<open>int\<close> loop counters of \<^verbatim>\<open>_HT_expand\<close> and \<^verbatim>\<open>HT_free\<close>
  overflow (a fault of the model) long before any of them could wrap at \<open>2 ^ 64\<close>.
  A value handle (\<^verbatim>\<open>void *\<close>) is an address, \<^verbatim>\<open>NULL\<close> being 0.
  A key argument (\<^verbatim>\<open>const char *\<close>) is the list of bytes the pointer addresses; the
  zero byte that ends a C string is implied after the last element of the list,
  and every reader below stops at the first zero byte, as the C readers do.
\<close>

type_synonym byte = "8 word"
type_synonym ulong = "64 word"
type_synonym ptr = nat

definition NULL :: ptr where
  "NULL = 0"

definition HT_MAX_KEY_LEN :: nat where
  "HT_MAX_KEY_LEN = 32"

definition HT_DEFAULT_CAPACITY :: nat where
  "HT_DEFAULT_CAPACITY = 16"

definition HT_MAX_CAPACITY :: nat where
  "HT_MAX_CAPACITY = 2 ^ 30"

definition HT_DEFAULT_LOAD_FACTOR :: rat where
  "HT_DEFAULT_LOAD_FACTOR = 3 / 4"

definition INT_MAX :: nat where
  "INT_MAX = 2 ^ 31 - 1"

text \<open>The three values of \<^verbatim>\<open>HT_BUCKET_T.state\<close> (0, -1 and -2 in the header).\<close>

datatype bucket_state = HT_BUCKET_OCCUPIED | HT_EMPTY_BUCKET | HT_DELETED_BUCKET

text \<open>\<^verbatim>\<open>HT_BUCKET_T\<close>.\<close>

record HT_BUCKET_T =
  hashcode :: ulong
  loc :: nat
  state :: bucket_state

text \<open>\<^verbatim>\<open>HT_ENTRY_T\<close>: the fields \<^verbatim>\<open>k\<close>, \<^verbatim>\<open>k_len\<close> and \<^verbatim>\<open>v\<close>.\<close>

record HT_ENTRY_T =
  k_buf :: "byte list"
  k_len :: nat
  v_ptr :: ptr

text \<open>
  \<^verbatim>\<open>HT_T\<close>. The fields \<^verbatim>\<open>values\<close>, \<^verbatim>\<open>n\<close> and \<^verbatim>\<open>hashcode\<close> are \<open>values_arr\<close>, \<open>n_elems\<close>
  and \<open>hashcode_fn\<close> here. The \<^verbatim>\<open>float\<close> load factor is the rational number it
  denotes. The deallocator is called by \<^verbatim>\<open>HT_free\<close> only, which returns the list
  of its calls, so the record does not carry it.
\<close>

record HT_T =
  index :: "HT_BUCKET_T list"
  values_arr :: "HT_ENTRY_T list"
  n_elems :: nat
  cap :: nat
  expand :: nat
  max_probe :: nat
  ins_loc :: nat
  load_factor :: rat
  cmp :: "byte list \<Rightarrow> byte list \<Rightarrow> nat \<Rightarrow> int"
  hashcode_fn :: "byte list \<Rightarrow> nat \<Rightarrow> ulong"

text \<open>Undefined behaviour the code can run into is a fault of the model.\<close>

datatype fault = KeyBufferOverrun nat | SignedOverflow

section \<open>The C library functions the header calls\<close>

text \<open>\<^verbatim>\<open>s[i]\<close> for a C string: the implied terminator after the listed bytes.\<close>

definition byte_at :: "byte list \<Rightarrow> nat \<Rightarrow> byte" where
  "byte_at s i = (if i < length s then s ! i else 0)"

text \<open>
  \<^verbatim>\<open>strncmp(s1, s2, n)\<close>: compares at most \<open>n\<close> bytes as unsigned chars and stops
  after a zero byte.
\<close>

fun strncmp :: "byte list \<Rightarrow> byte list \<Rightarrow> nat \<Rightarrow> int" where
  "strncmp s1 s2 0 = 0"
| "strncmp s1 s2 (Suc m) =
     (let c1 = byte_at s1 0; c2 = byte_at s2 0 in
      if c1 \<noteq> c2 then uint c1 - uint c2
      else if c1 = 0 then 0
      else strncmp (tl s1) (tl s2) m)"

text \<open>
  \<^verbatim>\<open>strncpy(dst, src, n)\<close>: writes exactly \<open>n\<close> bytes at the start of \<open>dst\<close>, the bytes
  of \<open>src\<close> up to its terminator and zero bytes after them.
\<close>

definition strncpy :: "byte list \<Rightarrow> byte list \<Rightarrow> nat \<Rightarrow> byte list" where
  "strncpy dst src m =
     (let s = take m (takeWhile (\<lambda>c. c \<noteq> 0) src) in
      s @ replicate (m - length s) 0 @ drop m dst)"

section \<open>Helpers of the header\<close>

text \<open>\<^verbatim>\<open>_HT_hash\<close>: the loop \<^verbatim>\<open>while ((c = *key++) && n++ <= key_len)\<close>.\<close>

fun hash_loop :: "byte list \<Rightarrow> nat \<Rightarrow> nat \<Rightarrow> ulong \<Rightarrow> ulong" where
  "hash_loop [] m key_len hash = hash"
| "hash_loop (c # key) m key_len hash =
     (if c = 0 then hash
      else if m \<le> key_len then
        hash_loop key (m + 1) key_len ((push_bit 5 hash + hash) + scast c)
      else hash)"

definition HT_hash :: "byte list \<Rightarrow> nat \<Rightarrow> ulong" where
  "HT_hash key key_len = hash_loop key 0 key_len 5381"

text \<open>\<^verbatim>\<open>_HT_calc_expansion\<close>: \<^verbatim>\<open>(size_t)(load_factor * capacity)\<close>.\<close>

definition HT_calc_expansion :: "rat \<Rightarrow> nat \<Rightarrow> nat" where
  "HT_calc_expansion lf capacity = nat \<lfloor>lf * of_nat capacity\<rfloor>"

text \<open>\<^verbatim>\<open>_HT_round_up\<close>: the bit smear on a \<^verbatim>\<open>size_t\<close>.\<close>

definition HT_round_up :: "nat \<Rightarrow> nat" where
  "HT_round_up val =
     (let v0 = (of_nat val :: ulong) - 1;
          v1 = v0 OR drop_bit 1 v0;
          v2 = v1 OR drop_bit 2 v1;
          v3 = v2 OR drop_bit 4 v2;
          v4 = v3 OR drop_bit 8 v3;
          v5 = v4 OR drop_bit 16 v4
      in unat (v5 + 1))"

text \<open>\<^verbatim>\<open>HT_CALC_LOC(ht, hashcode)\<close>: \<^verbatim>\<open>hashcode & (ht->cap - 1)\<close>.\<close>

definition HT_CALC_LOC :: "HT_T \<Rightarrow> ulong \<Rightarrow> nat" where
  "HT_CALC_LOC ht hc = unat (hc AND (of_nat (cap ht) - 1))"

text \<open>What the initialisation loops after \<^verbatim>\<open>calloc\<close> leave in each element.\<close>

definition empty_bucket :: HT_BUCKET_T where
  "empty_bucket = \<lparr>hashcode = 0, loc = 0, state = HT_EMPTY_BUCKET\<rparr>"

definition empty_entry :: HT_ENTRY_T where
  "empty_entry = \<lparr>k_buf = replicate HT_MAX_KEY_LEN 0, k_len = 0, v_ptr = NULL\<rparr>"

text \<open>
  The bucket a probe loop looks at after \<open>probe_len\<close> steps:
  \<^verbatim>\<open>HT_CALC_LOC(table, hashcode + probe_len)\<close>.
\<close>

definition probe_loc :: "HT_T \<Rightarrow> ulong \<Rightarrow> nat \<Rightarrow> nat" where
  "probe_loc t hc probe_len = HT_CALC_LOC t (hc + of_nat probe_len)"

text \<open>
  The key test of every probe loop, on the entry of an occupied bucket:
  \<^verbatim>\<open>e->k_len == key_len && table->cmp(key, e->k, key_len) == 0\<close>.
\<close>

definition key_equal :: "HT_T \<Rightarrow> byte list \<Rightarrow> nat \<Rightarrow> HT_ENTRY_T \<Rightarrow> bool" where
  "key_equal t key key_len e \<longleftrightarrow> k_len e = key_len \<and> cmp t key (k_buf e) key_len = 0"

section \<open>Construction\<close>

text \<open>
  \<^verbatim>\<open>HT_new_ex\<close>. The three flags say whether the allocation of the index, of the
  entries and of the table header succeeds; \<open>None\<close> is the \<^verbatim>\<open>NULL\<close> result.
\<close>

definition HT_new_ex ::
  "nat \<Rightarrow> rat \<Rightarrow> (byte list \<Rightarrow> nat \<Rightarrow> ulong) \<Rightarrow> (byte list \<Rightarrow> byte list \<Rightarrow> nat \<Rightarrow> int)
     \<Rightarrow> bool \<Rightarrow> bool \<Rightarrow> bool \<Rightarrow> HT_T option" where
  "HT_new_ex requested_capacity lf hashcode' cmp' index_ok values_ok table_ok =
     (let rc1 = (if requested_capacity < HT_DEFAULT_CAPACITY then HT_DEFAULT_CAPACITY
                 else requested_capacity);
          rc2 = (if rc1 > HT_MAX_CAPACITY then HT_MAX_CAPACITY else rc1);
          lf1 = (if lf < 1 / 10 \<or> lf > 1 then HT_DEFAULT_LOAD_FACTOR else lf);
          capacity = HT_round_up rc2;
          expand' = HT_calc_expansion lf1 capacity
      in if \<not> index_ok then None
         else if \<not> values_ok then None
         else if \<not> table_ok then None
         else Some \<lparr>index = replicate capacity empty_bucket,
                    values_arr = replicate capacity empty_entry,
                    n_elems = 0, cap = capacity, expand = expand', max_probe = 0,
                    ins_loc = 0, load_factor = lf1, cmp = cmp', hashcode_fn = hashcode'\<rparr>)"

text \<open>\<^verbatim>\<open>HT_new\<close>: the default strategies.\<close>

definition HT_new :: "nat \<Rightarrow> bool \<Rightarrow> bool \<Rightarrow> bool \<Rightarrow> HT_T option" where
  "HT_new requested_capacity index_ok values_ok table_ok =
     HT_new_ex requested_capacity HT_DEFAULT_LOAD_FACTOR HT_hash strncmp
       index_ok values_ok table_ok"

section \<open>Resize\<close>

text \<open>
  The inner probe loop of \<^verbatim>\<open>_HT_expand\<close>: the bucket \<open>b\<close> of the old index goes into
  the first bucket of the new index on its probe path that is not occupied. When
  the loop ends without a place the code prints a diagnostic and goes on.
\<close>

function expand_probe :: "HT_T \<Rightarrow> HT_BUCKET_T \<Rightarrow> nat \<Rightarrow> HT_T" where
  "expand_probe t b probe_len =
     (if probe_len \<le> cap t then
        (let index_loc = probe_loc t (hashcode b) probe_len;
             new_b = index t ! index_loc
         in if state new_b \<noteq> HT_BUCKET_OCCUPIED then
              t\<lparr>index := (index t)[index_loc := b],
                max_probe := (if probe_len > max_probe t then probe_len else max_probe t)\<rparr>
            else expand_probe t b (probe_len + 1))
      else t)"
  by pat_completeness auto
termination
  by (relation "measure (\<lambda>(t, b, probe_len). cap t + 1 - probe_len)") auto

declare expand_probe.simps [simp del]

text \<open>The outer loop over the old index.\<close>

fun copy_index :: "HT_BUCKET_T list \<Rightarrow> HT_T \<Rightarrow> HT_T" where
  "copy_index [] t = t"
| "copy_index (existing_b # bs) t =
     copy_index bs
       (if state existing_b = HT_BUCKET_OCCUPIED then expand_probe t existing_b 0 else t)"

text \<open>
  \<^verbatim>\<open>_HT_expand\<close>. \<open>Inr None\<close> is the \<^verbatim>\<open>NULL\<close> result of a failed allocation. Both copy
  loops count with an \<^verbatim>\<open>int\<close> up to the old capacity, which overflows when the old
  capacity exceeds \<^verbatim>\<open>INT_MAX\<close>.
\<close>

definition HT_expand :: "HT_T \<Rightarrow> bool \<Rightarrow> bool \<Rightarrow> fault + HT_T option" where
  "HT_expand t index_ok values_ok =
     (let existing_capacity = cap t;
          existing_index = index t;
          existing_values = values_arr t;
          capacity = HT_round_up (cap t * 2);
          expand' = HT_calc_expansion (load_factor t) capacity
      in if \<not> index_ok then Inr None
         else if \<not> values_ok then Inr None
         else if existing_capacity > INT_MAX then Inl SignedOverflow
         else
           Inr (Some (copy_index (take existing_capacity existing_index)
             (t\<lparr>index := replicate capacity empty_bucket,
                values_arr := take existing_capacity existing_values
                   @ replicate (capacity - existing_capacity) empty_entry,
                cap := capacity, expand := expand', max_probe := 0\<rparr>))))"

section \<open>Insert and update\<close>

text \<open>
  The two writes into the key buffer of an entry: \<^verbatim>\<open>strncpy(e->k, key, key_len)\<close>
  writes the indices below \<open>key_len\<close>, and \<^verbatim>\<open>e->k[key_len + 1] = '\0'\<close> writes one
  more. A write at an index outside the buffer is a fault.
\<close>

definition key_write_indices :: "nat \<Rightarrow> nat list" where
  "key_write_indices key_len = [0..<key_len] @ [key_len + 1]"

definition store_key :: "byte list \<Rightarrow> byte list \<Rightarrow> nat \<Rightarrow> fault + byte list" where
  "store_key kb key key_len =
     (case filter (\<lambda>i. \<not> i < HT_MAX_KEY_LEN) (key_write_indices key_len) of
        [] \<Rightarrow> Inr ((strncpy kb key key_len)[key_len + 1 := 0])
      | i # _ \<Rightarrow> Inl (KeyBufferOverrun i))"

text \<open>The update branch of \<^verbatim>\<open>HT_put\<close>: \<^verbatim>\<open>e->v = value\<close> on the entry of bucket \<open>b\<close>.\<close>

definition put_update :: "HT_T \<Rightarrow> HT_BUCKET_T \<Rightarrow> ptr \<Rightarrow> HT_T" where
  "put_update t b val =
     t\<lparr>values_arr := (values_arr t)[loc b := (values_arr t ! loc b)\<lparr>v_ptr := val\<rparr>]\<rparr>"

text \<open>
  The insert branch of \<^verbatim>\<open>HT_put\<close> at the bucket \<open>index_loc\<close>, which is not occupied:
  an empty bucket takes the entry at the insertion cursor, a deleted one the
  entry it still refers to.
\<close>

definition put_insert ::
  "HT_T \<Rightarrow> nat \<Rightarrow> nat \<Rightarrow> byte list \<Rightarrow> nat \<Rightarrow> ptr \<Rightarrow> ulong \<Rightarrow> fault + ptr \<times> HT_T" where
  "put_insert t index_loc probe_len key key_len val hc =
     (let b = index t ! index_loc;
          il = (if state b = HT_EMPTY_BUCKET then ins_loc t else loc b);
          t1 = (if state b = HT_EMPTY_BUCKET then t\<lparr>ins_loc := ins_loc t + 1\<rparr> else t);
          e = values_arr t1 ! il
      in case store_key (k_buf e) key key_len of
           Inl f \<Rightarrow> Inl f
         | Inr kb \<Rightarrow>
             Inr (val,
               t1\<lparr>values_arr := (values_arr t1)
                      [il := e\<lparr>k_buf := kb, k_len := key_len, v_ptr := val\<rparr>],
                  index := (index t1)
                      [index_loc := \<lparr>hashcode = hc, loc = il, state = HT_BUCKET_OCCUPIED\<rparr>],
                  max_probe := (if probe_len > max_probe t1 then probe_len
                                else max_probe t1),
                  n_elems := n_elems t1 + 1\<rparr>))"

text \<open>The probe loop of \<^verbatim>\<open>HT_put\<close>.\<close>

function put_probe ::
  "HT_T \<Rightarrow> byte list \<Rightarrow> nat \<Rightarrow> ptr \<Rightarrow> ulong \<Rightarrow> nat \<Rightarrow> fault + ptr \<times> HT_T" where
  "put_probe t key key_len val hc probe_len =
     (if probe_len \<le> cap t then
        (let index_loc = probe_loc t hc probe_len;
             b = index t ! index_loc
         in if state b = HT_BUCKET_OCCUPIED \<and> hashcode b = hc then
              (if key_equal t key key_len (values_arr t ! loc b) then
                 Inr (val, put_update t b val)
               else put_probe t key key_len val hc (probe_len + 1))
            else if state b \<noteq> HT_BUCKET_OCCUPIED then
              put_insert t index_loc probe_len key key_len val hc
            else put_probe t key key_len val hc (probe_len + 1))
      else Inr (NULL, t))"
  by pat_completeness auto
termination
  by (relation "measure (\<lambda>(t, key, key_len, val, hc, probe_len). cap t + 1 - probe_len)")
    auto

declare put_probe.simps [simp del]

text \<open>
  \<^verbatim>\<open>HT_put\<close> on the table a non-null \<^verbatim>\<open>table\<close> points to (with a null \<^verbatim>\<open>table\<close> every
  operation returns its failure value at once and there is no state). A null
  \<^verbatim>\<open>key\<close> is \<open>None\<close>. The result is the returned handle and the table afterwards.
\<close>

definition needs_expand :: "HT_T \<Rightarrow> bool" where
  "needs_expand t \<longleftrightarrow> n_elems t > expand t \<or> n_elems t = cap t \<or> ins_loc t = cap t"

definition HT_put ::
  "HT_T \<Rightarrow> byte list option \<Rightarrow> nat \<Rightarrow> ptr \<Rightarrow> bool \<Rightarrow> bool \<Rightarrow> fault + ptr \<times> HT_T" where
  "HT_put t key key_len val index_ok values_ok =
     (case key of
        None \<Rightarrow> Inr (NULL, t)
      | Some kb \<Rightarrow>
          if key_len > HT_MAX_KEY_LEN - 1 then Inr (NULL, t)
          else if needs_expand t then
            (case HT_expand t index_ok values_ok of
               Inl f \<Rightarrow> Inl f
             | Inr None \<Rightarrow> Inr (NULL, t)
             | Inr (Some t') \<Rightarrow> put_probe t' kb key_len val (hashcode_fn t' kb key_len) 0)
          else put_probe t kb key_len val (hashcode_fn t kb key_len) 0)"

section \<open>Lookup, existence and removal\<close>

function get_probe :: "HT_T \<Rightarrow> byte list \<Rightarrow> nat \<Rightarrow> ulong \<Rightarrow> nat \<Rightarrow> ptr" where
  "get_probe t key key_len hc probe_len =
     (if probe_len \<le> max_probe t then
        (let index_loc = probe_loc t hc probe_len;
             b = index t ! index_loc
         in if state b = HT_BUCKET_OCCUPIED \<and> hashcode b = hc then
              (if key_equal t key key_len (values_arr t ! loc b) then
                 v_ptr (values_arr t ! loc b)
               else get_probe t key key_len hc (probe_len + 1))
            else if state b = HT_EMPTY_BUCKET then NULL
            else get_probe t key key_len hc (probe_len + 1))
      else NULL)"
  by pat_completeness auto
termination
  by (relation "measure (\<lambda>(t, key, key_len, hc, probe_len). max_probe t + 1 - probe_len)")
    auto

declare get_probe.simps [simp del]

definition HT_get :: "HT_T \<Rightarrow> byte list option \<Rightarrow> nat \<Rightarrow> ptr" where
  "HT_get t key key_len =
     (case key of
        None \<Rightarrow> NULL
      | Some kb \<Rightarrow>
          if key_len > HT_MAX_KEY_LEN - 1 then NULL
          else get_probe t kb key_len (hashcode_fn t kb key_len) 0)"

text \<open>\<^verbatim>\<open>HT_exists\<close>: the results 1 and 0 are \<open>True\<close> and \<open>False\<close>.\<close>

function exists_probe :: "HT_T \<Rightarrow> byte list \<Rightarrow> nat \<Rightarrow> ulong \<Rightarrow> nat \<Rightarrow> bool" where
  "exists_probe t key key_len hc probe_len =
     (if probe_len \<le> max_probe t then
        (let index_loc = probe_loc t hc probe_len;
             b = index t ! index_loc
         in if state b = HT_BUCKET_OCCUPIED \<and> hashcode b = hc then
              (if key_equal t key key_len (values_arr t ! loc b) then True
               else exists_probe t key key_len hc (probe_len + 1))
            else if state b = HT_EMPTY_BUCKET then False
            else exists_probe t key key_len hc (probe_len + 1))
      else False)"
  by pat_completeness auto
termination
  by (relation "measure (\<lambda>(t, key, key_len, hc, probe_len). max_probe t + 1 - probe_len)")
    auto

declare exists_probe.simps [simp del]

definition HT_exists :: "HT_T \<Rightarrow> byte list option \<Rightarrow> nat \<Rightarrow> bool" where
  "HT_exists t key key_len =
     (case key of
        None \<Rightarrow> False
      | Some kb \<Rightarrow>
          if key_len > HT_MAX_KEY_LEN - 1 then False
          else exists_probe t kb key_len (hashcode_fn t kb key_len) 0)"

text \<open>
  The removal branch of \<^verbatim>\<open>HT_remove\<close> at the bucket \<open>index_loc\<close>: the entry is
  cleared, the bucket becomes a tombstone that keeps its \<^verbatim>\<open>loc\<close>, and the handle
  that was stored is returned. (\<^verbatim>\<open>table->n--\<close> runs on a table with an occupied
  bucket, where \<open>n\<close> is positive: see \<open>table_inv\<close>.)
\<close>

definition remove_at :: "HT_T \<Rightarrow> nat \<Rightarrow> ptr \<times> HT_T" where
  "remove_at t index_loc =
     (let b = index t ! index_loc;
          e = values_arr t ! loc b;
          found_value = v_ptr e
      in (found_value,
          t\<lparr>values_arr := (values_arr t)
                [loc b := e\<lparr>k_buf := (k_buf e)[0 := 0], k_len := 0, v_ptr := NULL\<rparr>],
            index := (index t)
                [index_loc := b\<lparr>state := HT_DELETED_BUCKET, hashcode := 0\<rparr>],
            n_elems := n_elems t - 1\<rparr>))"

function remove_probe :: "HT_T \<Rightarrow> byte list \<Rightarrow> nat \<Rightarrow> ulong \<Rightarrow> nat \<Rightarrow> ptr \<times> HT_T" where
  "remove_probe t key key_len hc probe_len =
     (if probe_len \<le> max_probe t then
        (let index_loc = probe_loc t hc probe_len;
             b = index t ! index_loc
         in if state b = HT_BUCKET_OCCUPIED \<and> hashcode b = hc then
              (if key_equal t key key_len (values_arr t ! loc b) then
                 remove_at t index_loc
               else remove_probe t key key_len hc (probe_len + 1))
            else if state b = HT_EMPTY_BUCKET then (NULL, t)
            else remove_probe t key key_len hc (probe_len + 1))
      else (NULL, t))"
  by pat_completeness auto
termination
  by (relation "measure (\<lambda>(t, key, key_len, hc, probe_len). max_probe t + 1 - probe_len)")
    auto

declare remove_probe.simps [simp del]

definition HT_remove :: "HT_T \<Rightarrow> byte list option \<Rightarrow> nat \<Rightarrow> ptr \<times> HT_T" where
  "HT_remove t key key_len =
     (case key of
        None \<Rightarrow> (NULL, t)
      | Some kb \<Rightarrow>
          if key_len > HT_MAX_KEY_LEN - 1 then (NULL, t)
          else remove_probe t kb key_len (hashcode_fn t kb key_len) 0)"

section \<open>Destruction\<close>

text \<open>
  \<^verbatim>\<open>HT_free\<close>: the handles passed to the deallocator, in the order of the calls. The
  loop counts with an \<^verbatim>\<open>int\<close> up to \<^verbatim>\<open>cap\<close>.
\<close>

definition dealloc_calls :: "HT_T \<Rightarrow> HT_BUCKET_T \<Rightarrow> ptr list" where
  "dealloc_calls t b =
     (if state b = HT_BUCKET_OCCUPIED then
        (let val = v_ptr (values_arr t ! loc b) in if val \<noteq> NULL then [val] else [])
      else [])"

definition HT_free :: "HT_T \<Rightarrow> fault + ptr list" where
  "HT_free t =
     (if cap t > INT_MAX then Inl SignedOverflow
      else Inr (concat (map (dealloc_calls t) (take (cap t) (index t)))))"

section \<open>Sequences of operations and reachable tables\<close>

text \<open>
  The operations that change a table, with the outcome of the two allocations a
  resize makes. \<^verbatim>\<open>HT_get\<close> and \<^verbatim>\<open>HT_exists\<close> read the table and leave it as it is.
\<close>

datatype op = Put "byte list option" nat ptr bool bool | Remove "byte list option" nat

fun apply_op :: "HT_T \<Rightarrow> op \<Rightarrow> fault + HT_T" where
  "apply_op t (Put key key_len val index_ok values_ok) =
     (case HT_put t key key_len val index_ok values_ok of
        Inl f \<Rightarrow> Inl f
      | Inr (r, t') \<Rightarrow> Inr t')"
| "apply_op t (Remove key key_len) = Inr (snd (HT_remove t key key_len))"

fun run :: "HT_T \<Rightarrow> op list \<Rightarrow> fault + HT_T" where
  "run t [] = Inr t"
| "run t (x # xs) = (case apply_op t x of Inl f \<Rightarrow> Inl f | Inr t' \<Rightarrow> run t' xs)"

text \<open>
  The tables a program can hold: what a construction returns, and what any
  operation without undefined behaviour makes of such a table.
\<close>

inductive reachable :: "HT_T \<Rightarrow> bool" where
  construct:
    "HT_new_ex requested_capacity lf hashcode' cmp' index_ok values_ok table_ok = Some t
       \<Longrightarrow> reachable t"
| step: "reachable t \<Longrightarrow> apply_op t x = Inr t' \<Longrightarrow> reachable t'"

section \<open>Predicates of the verification\<close>

text \<open>
  Where a probe for \<open>key\<close> stands after \<open>d\<close> steps: on an occupied bucket with the
  key's hash whose entry holds the key, or on an occupied bucket it steps over.
\<close>

definition key_match :: "HT_T \<Rightarrow> byte list \<Rightarrow> nat \<Rightarrow> ulong \<Rightarrow> nat \<Rightarrow> bool" where
  "key_match t key key_len hc d \<longleftrightarrow>
     state (index t ! probe_loc t hc d) = HT_BUCKET_OCCUPIED \<and>
     hashcode (index t ! probe_loc t hc d) = hc \<and>
     key_equal t key key_len (values_arr t ! loc (index t ! probe_loc t hc d))"

definition stepped_over :: "HT_T \<Rightarrow> byte list \<Rightarrow> nat \<Rightarrow> ulong \<Rightarrow> nat \<Rightarrow> bool" where
  "stepped_over t key key_len hc d \<longleftrightarrow>
     state (index t ! probe_loc t hc d) = HT_BUCKET_OCCUPIED \<and> \<not> key_match t key key_len hc d"

definition occupied_count :: "HT_T \<Rightarrow> nat" where
  "occupied_count t = length (filter (\<lambda>b. state b = HT_BUCKET_OCCUPIED) (index t))"

definition used_buckets :: "HT_T \<Rightarrow> HT_BUCKET_T list" where
  "used_buckets t = filter (\<lambda>b. state b \<noteq> HT_EMPTY_BUCKET) (index t)"

text \<open>The invariant every reachable table satisfies.\<close>

definition table_inv :: "HT_T \<Rightarrow> bool" where
  "table_inv t \<longleftrightarrow>
     (\<exists>k. 4 \<le> k \<and> k \<le> 31 \<and> cap t = 2 ^ k) \<and>
     length (index t) = cap t \<and>
     length (values_arr t) = cap t \<and>
     n_elems t = occupied_count t \<and>
     length (used_buckets t) \<le> ins_loc t \<and>
     ins_loc t \<le> cap t \<and>
     list_all (\<lambda>b. loc b < ins_loc t) (used_buckets t) \<and>
     distinct (map loc (used_buckets t)) \<and>
     list_all (\<lambda>e. length (k_buf e) = HT_MAX_KEY_LEN \<and> k_len e + 1 < HT_MAX_KEY_LEN)
       (values_arr t)"

text \<open>
  The table \<^verbatim>\<open>_HT_expand\<close> is filling while it copies the old index: the new index
  has the new capacity and no tombstone.
\<close>

definition rebuilding :: "nat \<Rightarrow> HT_T \<Rightarrow> bool" where
  "rebuilding k t \<longleftrightarrow> k \<le> 64 \<and> cap t = 2 ^ k \<and> length (index t) = cap t \<and>
     list_all (\<lambda>b. state b \<noteq> HT_DELETED_BUCKET) (index t)"

text \<open>
  The bucket at position \<open>p\<close> with the cached hash \<open>hc\<close> is found from its home:
  it stands \<open>d\<close> steps along the probe path of \<open>hc\<close>, and no bucket before it
  on that path is empty.
\<close>

definition chained :: "HT_T \<Rightarrow> ulong \<Rightarrow> nat \<Rightarrow> nat \<Rightarrow> bool" where
  "chained t hc p d \<longleftrightarrow>
     probe_loc t hc d = p \<and>
     (\<forall>d'<d. state (index t ! probe_loc t hc d') \<noteq> HT_EMPTY_BUCKET)"

text \<open>Every occupied bucket is found within \<open>max_probe\<close> steps.\<close>

definition probe_inv :: "HT_T \<Rightarrow> bool" where
  "probe_inv t \<longleftrightarrow>
     (\<forall>p<cap t. state (index t ! p) = HT_BUCKET_OCCUPIED
        \<longrightarrow> (\<exists>d\<le>max_probe t. chained t (hashcode (index t ! p)) p d))"

text \<open>
  The bucket \<open>b\<close> binds the key \<open>key\<close> (a string without a zero byte, passed with
  its length) to \<open>val\<close>.
\<close>

definition holds_binding :: "HT_T \<Rightarrow> HT_BUCKET_T \<Rightarrow> byte list \<Rightarrow> ptr \<Rightarrow> bool" where
  "holds_binding t b key val \<longleftrightarrow>
     state b = HT_BUCKET_OCCUPIED \<and>
     hashcode b = hashcode_fn t key (length key) \<and>
     k_len (values_arr t ! loc b) = length key \<and>
     take (length key) (k_buf (values_arr t ! loc b)) = key \<and>
     v_ptr (values_arr t ! loc b) = val"

text \<open>
  A table that has only seen puts of the bindings \<open>kvs\<close>: each has its bucket,
  every occupied bucket holds one of them, and there is no tombstone.
\<close>

definition stores :: "HT_T \<Rightarrow> (byte list \<times> ptr) list \<Rightarrow> bool" where
  "stores t kvs \<longleftrightarrow>
     (\<forall>kv\<in>set kvs. \<exists>b\<in>set (index t). holds_binding t b (fst kv) (snd kv)) \<and>
     (\<forall>b\<in>set (index t). state b = HT_BUCKET_OCCUPIED
        \<longrightarrow> (\<exists>kv\<in>set kvs. holds_binding t b (fst kv) (snd kv))) \<and>
     (\<forall>b\<in>set (index t). state b \<noteq> HT_DELETED_BUCKET)"

text \<open>The puts of the bindings \<open>kvs\<close>, each key passed with its length, no allocation failing.\<close>

definition puts_of :: "(byte list \<times> ptr) list \<Rightarrow> op list" where
  "puts_of kvs = map (\<lambda>kv. Put (Some (fst kv)) (length (fst kv)) (snd kv) True True) kvs"

text \<open>
  A table of the default strategies after the puts of \<open>kvs\<close> and nothing else:
  the counters have followed the puts and the resize threshold fits the capacity.
\<close>

definition filled_by_puts :: "HT_T \<Rightarrow> (byte list \<times> ptr) list \<Rightarrow> bool" where
  "filled_by_puts t kvs \<longleftrightarrow>
     table_inv t \<and> stores t kvs \<and> cmp t = strncmp \<and>
     n_elems t = length kvs \<and> ins_loc t = length kvs \<and>
     load_factor t = HT_DEFAULT_LOAD_FACTOR \<and>
     expand t = HT_calc_expansion HT_DEFAULT_LOAD_FACTOR (cap t)"

text \<open>
  The lookups, started at probe distance \<open>pl\<close>, reach a bucket with the key at distance \<open>d\<close>:
  it is within the probe limit and no empty bucket lies before it.
\<close>

definition found_at :: "HT_T \<Rightarrow> byte list \<Rightarrow> nat \<Rightarrow> ulong \<Rightarrow> nat \<Rightarrow> nat \<Rightarrow> bool" where
  "found_at t key key_len hc pl d \<longleftrightarrow>
     pl \<le> d \<and> d \<le> max_probe t \<and> key_match t key key_len hc d \<and>
     (\<forall>d'. pl \<le> d' \<and> d' < d \<longrightarrow> state (index t ! probe_loc t hc d') \<noteq> HT_EMPTY_BUCKET)"

text \<open>The table \<^verbatim>\<open>HT_new(HT_DEFAULT_CAPACITY)\<close> returns when its allocations succeed.\<close>

definition fresh_table :: HT_T where
  "fresh_table = the (HT_new HT_DEFAULT_CAPACITY True True True)"

section \<open>Lemmas\<close>

subsection \<open>Probe positions\<close>

lemma calc_loc_pow2:
  assumes "cap t = 2 ^ k"
  shows "HT_CALC_LOC t h = unat h mod 2 ^ k"
proof -
  have "(of_nat (cap t) :: ulong) - 1 = mask k"
    using assms by (simp add: mask_eq_exp_minus_1)
  then have "HT_CALC_LOC t h = unat (take_bit k h)"
    by (simp only: HT_CALC_LOC_def take_bit_eq_mask)
  also have "\<dots> = take_bit k (unat h)"
    by (rule unsigned_take_bit_eq)
  finally show ?thesis
    by (simp only: take_bit_eq_mod)
qed

lemma unat_add_of_nat_mod:
  assumes "k \<le> 64"
  shows "unat ((h :: ulong) + of_nat d) mod 2 ^ k = (unat h + d) mod 2 ^ k"
proof -
  define M :: nat where "M = 2 ^ 64"
  have dv: "(2::nat) ^ k dvd M"
    unfolding M_def using assms by (rule le_imp_power_dvd)
  have "unat (h + of_nat d) = (unat h + d mod M) mod M"
    by (simp add: unat_word_ariths unat_of_nat M_def)
  also have "\<dots> = (unat h + d) mod M"
    by (simp add: mod_simps)
  finally have "unat (h + of_nat d) mod 2 ^ k = ((unat h + d) mod M) mod 2 ^ k" by simp
  also have "\<dots> = (unat h + d) mod 2 ^ k"
    using dv by (rule mod_mod_cancel)
  finally show ?thesis .
qed

lemma probe_loc_pow2:
  assumes "cap t = 2 ^ k" "k \<le> 64"
  shows "probe_loc t hc d = (unat hc + d) mod 2 ^ k"
  unfolding probe_loc_def calc_loc_pow2[OF assms(1)] by (rule unat_add_of_nat_mod[OF assms(2)])

lemma probe_loc_less:
  assumes "cap t = 2 ^ k" "k \<le> 64"
  shows "probe_loc t hc d < cap t"
  by (simp add: probe_loc_pow2[OF assms] assms(1))

lemma probe_loc_cover:
  assumes c: "cap t = 2 ^ k" "k \<le> 64" and j: "j < cap t"
  shows "\<exists>d<cap t. probe_loc t hc d = j"
proof -
  define c where "c = (2::nat) ^ k"
  define a where "a = unat hc mod c"
  define d where "d = (j + c - a) mod c"
  have cpos: "0 < c" by (simp add: c_def)
  have a: "a < c" unfolding a_def using cpos by simp
  have jc: "j < c" using j c(1) by (simp add: c_def)
  have "(unat hc + d) mod c = (a + (j + c - a) mod c) mod c"
    unfolding a_def d_def by (simp add: mod_simps)
  also have "\<dots> = (a + (j + c - a)) mod c"
    by (simp add: mod_simps)
  also have "a + (j + c - a) = j + c" using a by simp
  also have "(j + c) mod c = j" using jc by simp
  finally have "probe_loc t hc d = j"
    unfolding probe_loc_pow2[OF c] c_def .
  moreover have "d < cap t" unfolding d_def using cpos c(1) by (simp add: c_def)
  ultimately show ?thesis by blast
qed

subsection \<open>Filtering an updated list\<close>

lemma filter_split_at:
  assumes "j < length xs"
  shows "filter Q xs
    = filter Q (take j xs) @ (if Q (xs ! j) then [xs ! j] else []) @ filter Q (drop (Suc j) xs)"
proof -
  have "filter Q xs = filter Q (take j xs @ xs ! j # drop (Suc j) xs)"
    using id_take_nth_drop[OF assms] by simp
  then show ?thesis by simp
qed

lemma filter_update_split:
  assumes "j < length xs"
  shows "filter Q (xs[j := b])
    = filter Q (take j xs) @ (if Q b then [b] else []) @ filter Q (drop (Suc j) xs)"
  using assms filter_split_at[of j "xs[j := b]" Q] by simp

subsection \<open>What the probe loops return\<close>

lemma put_probe_cases:
  assumes "(\<forall>d. pl \<le> d \<and> d \<le> cap t \<longrightarrow> stepped_over t key key_len hc d)
      \<Longrightarrow> P (Inr (NULL, t))"
    and "\<And>d. pl \<le> d \<Longrightarrow> d \<le> cap t
      \<Longrightarrow> (\<forall>d'. pl \<le> d' \<and> d' < d \<longrightarrow> stepped_over t key key_len hc d')
      \<Longrightarrow> key_match t key key_len hc d
      \<Longrightarrow> P (Inr (val, put_update t (index t ! probe_loc t hc d) val))"
    and "\<And>d. pl \<le> d \<Longrightarrow> d \<le> cap t
      \<Longrightarrow> (\<forall>d'. pl \<le> d' \<and> d' < d \<longrightarrow> stepped_over t key key_len hc d')
      \<Longrightarrow> state (index t ! probe_loc t hc d) \<noteq> HT_BUCKET_OCCUPIED
      \<Longrightarrow> P (put_insert t (probe_loc t hc d) d key key_len val hc)"
  shows "P (put_probe t key key_len val hc pl)"
  using assms
proof (induction "cap t + 1 - pl" arbitrary: pl)
  case 0
  then have n: "\<not> pl \<le> cap t" by simp
  then have "\<forall>d. pl \<le> d \<and> d \<le> cap t \<longrightarrow> stepped_over t key key_len hc d" by auto
  then have "P (Inr (NULL, t))" by (rule "0.prems"(1))
  then show ?case using n by (simp add: put_probe.simps[of _ _ _ _ _ pl])
next
  case (Suc m)
  then have le: "pl \<le> cap t" by simp
  let ?b = "index t ! probe_loc t hc pl"
  have vac: "\<forall>d'. pl \<le> d' \<and> d' < pl \<longrightarrow> stepped_over t key key_len hc d'" by auto
  consider (m) "key_match t key key_len hc pl"
    | (f) "state ?b \<noteq> HT_BUCKET_OCCUPIED"
    | (s) "stepped_over t key key_len hc pl"
    unfolding stepped_over_def by blast
  then show ?case
  proof cases
    case m
    have "put_probe t key key_len val hc pl = Inr (val, put_update t ?b val)"
      using m le by (simp add: put_probe.simps[of _ _ _ _ _ pl] key_match_def Let_def)
    then show ?thesis using Suc.prems(2)[OF _ le vac m] by simp
  next
    case f
    have "put_probe t key key_len val hc pl = put_insert t (probe_loc t hc pl) pl key key_len val hc"
      using f le by (simp add: put_probe.simps[of _ _ _ _ _ pl] Let_def)
    then show ?thesis using Suc.prems(3)[OF _ le vac f] by simp
  next
    case s
    have eq: "put_probe t key key_len val hc pl = put_probe t key key_len val hc (pl + 1)"
      using s le
      by (auto simp add: put_probe.simps[of _ _ _ _ _ pl] Let_def stepped_over_def key_match_def)
    have all: "(\<forall>d'. pl \<le> d' \<and> d' < d \<longrightarrow> stepped_over t key key_len hc d')"
      if "\<forall>d'. pl + 1 \<le> d' \<and> d' < d \<longrightarrow> stepped_over t key key_len hc d'" for d
    proof (intro allI impI)
      fix d' assume "pl \<le> d' \<and> d' < d"
      then show "stepped_over t key key_len hc d'"
        using that s by (cases "d' = pl") auto
    qed
    have "P (put_probe t key key_len val hc (pl + 1))"
    proof (rule Suc.hyps(1))
      show "m = cap t + 1 - (pl + 1)" using Suc.hyps(2) by simp
    next
      assume a: "\<forall>d. pl + 1 \<le> d \<and> d \<le> cap t \<longrightarrow> stepped_over t key key_len hc d"
      have "\<forall>d. pl \<le> d \<and> d \<le> cap t \<longrightarrow> stepped_over t key key_len hc d"
      proof (intro allI impI)
        fix d assume "pl \<le> d \<and> d \<le> cap t"
        then show "stepped_over t key key_len hc d" using a s by (cases "d = pl") auto
      qed
      then show "P (Inr (NULL, t))" by (rule Suc.prems(1))
    next
      fix d
      assume "pl + 1 \<le> d" "d \<le> cap t"
        "\<forall>d'. pl + 1 \<le> d' \<and> d' < d \<longrightarrow> stepped_over t key key_len hc d'"
        "key_match t key key_len hc d"
      then show "P (Inr (val, put_update t (index t ! probe_loc t hc d) val))"
        using Suc.prems(2)[of d] all[of d] by simp
    next
      fix d
      assume "pl + 1 \<le> d" "d \<le> cap t"
        "\<forall>d'. pl + 1 \<le> d' \<and> d' < d \<longrightarrow> stepped_over t key key_len hc d'"
        "state (index t ! probe_loc t hc d) \<noteq> HT_BUCKET_OCCUPIED"
      then show "P (put_insert t (probe_loc t hc d) d key key_len val hc)"
        using Suc.prems(3)[of d] all[of d] by simp
    qed
    then show ?thesis by (simp only: eq)
  qed
qed


subsection \<open>Counting through an update\<close>

lemma update_filter_length_add:
  assumes "j < length xs" "\<not> Q (xs ! j)" "Q b"
  shows "length (filter Q (xs[j := b])) = Suc (length (filter Q xs))"
  using assms by (simp add: filter_update_split filter_split_at[of j xs Q])

lemma update_filter_length_same:
  assumes "j < length xs" "Q (xs ! j) = Q b"
  shows "length (filter Q (xs[j := b])) = length (filter Q xs)"
  using assms by (simp add: filter_update_split filter_split_at[of j xs Q])

lemma update_filter_length_sub:
  assumes "j < length xs" "Q (xs ! j)" "\<not> Q b"
  shows "Suc (length (filter Q (xs[j := b]))) = length (filter Q xs)"
  using assms by (simp add: filter_update_split filter_split_at[of j xs Q])

lemma update_filter_map_same:
  assumes "j < length xs" "Q (xs ! j)" "Q b" "f (xs ! j) = f b"
  shows "map f (filter Q (xs[j := b])) = map f (filter Q xs)"
  using assms by (simp add: filter_update_split filter_split_at[of j xs Q])

lemma update_filter_distinct_new:
  assumes "j < length xs" "\<not> Q (xs ! j)" "Q b" "distinct (map f (filter Q xs))"
    and fresh: "\<And>x. x \<in> set xs \<Longrightarrow> Q x \<Longrightarrow> f x \<noteq> f b"
  shows "distinct (map f (filter Q (xs[j := b])))"
proof -
  have t: "f b \<notin> set (map f (filter Q (take j xs)))"
    using fresh in_set_takeD[of _ j xs] by force
  have d: "f b \<notin> set (map f (filter Q (drop (Suc j) xs)))"
    using fresh in_set_dropD[of _ "Suc j" xs] by force
  have "distinct (map f (filter Q (take j xs)) @ map f (filter Q (drop (Suc j) xs)))"
    using assms(1,2,4) by (simp add: filter_split_at[of j xs Q])
  then show ?thesis
    using assms(1,3) t d by (simp add: filter_update_split)
qed

lemma list_all_update:
  assumes "list_all R xs" "j < length xs \<Longrightarrow> R b"
  shows "list_all R (xs[j := b])"
proof (cases "j < length xs")
  case True
  then show ?thesis
    using assms set_update_subset_insert[of xs j b] by (auto simp add: list_all_iff)
next
  case False
  then show ?thesis using assms(1) by (simp add: list_update_beyond)
qed

lemma list_all_filter_update:
  assumes "list_all R (filter Q xs)" "Q b \<Longrightarrow> R b"
  shows "list_all R (filter Q (xs[j := b]))"
  using assms set_update_subset_insert[of xs j b] by (auto simp add: list_all_iff)


subsection \<open>The key buffer\<close>

lemma length_strncpy:
  assumes "m \<le> length dst"
  shows "length (strncpy dst src m) = length dst"
  using assms by (simp add: strncpy_def Let_def)

lemma store_key_Inr:
  assumes "store_key kb key key_len = Inr kb'"
  shows "key_len + 1 < HT_MAX_KEY_LEN" and "kb' = (strncpy kb key key_len)[key_len + 1 := 0]"
proof -
  have e: "filter (\<lambda>i. \<not> i < HT_MAX_KEY_LEN) (key_write_indices key_len) = []"
    using assms by (simp add: store_key_def split: list.splits)
  then show "key_len + 1 < HT_MAX_KEY_LEN"
    by (simp add: key_write_indices_def split: if_splits)
  show "kb' = (strncpy kb key key_len)[key_len + 1 := 0]"
    using assms e by (simp add: store_key_def)
qed

lemma store_key_Inl:
  assumes "\<not> key_len + 1 < HT_MAX_KEY_LEN" "key_len < HT_MAX_KEY_LEN"
  shows "store_key kb key key_len = Inl (KeyBufferOverrun (key_len + 1))"
proof -
  have "filter (\<lambda>i. \<not> i < HT_MAX_KEY_LEN) (key_write_indices key_len) = [key_len + 1]"
    using assms by (simp add: key_write_indices_def)
  then show ?thesis by (simp add: store_key_def)
qed

subsection \<open>The invariant through each operation\<close>

lemma table_invI:
  assumes "4 \<le> k" "k \<le> 31" "cap t = 2 ^ k"
    and "length (index t) = cap t"
    and "length (values_arr t) = cap t"
    and "n_elems t = occupied_count t"
    and "length (used_buckets t) \<le> ins_loc t"
    and "ins_loc t \<le> cap t"
    and "list_all (\<lambda>b. loc b < ins_loc t) (used_buckets t)"
    and "distinct (map loc (used_buckets t))"
    and "list_all (\<lambda>e. length (k_buf e) = HT_MAX_KEY_LEN \<and> k_len e + 1 < HT_MAX_KEY_LEN)
       (values_arr t)"
  shows "table_inv t"
  unfolding table_inv_def using assms by blast

lemma table_invD:
  assumes "table_inv t"
  shows "\<exists>k. 4 \<le> k \<and> k \<le> 31 \<and> cap t = 2 ^ k"
    and "length (index t) = cap t"
    and "length (values_arr t) = cap t"
    and "n_elems t = occupied_count t"
    and "length (used_buckets t) \<le> ins_loc t"
    and "ins_loc t \<le> cap t"
    and "list_all (\<lambda>b. loc b < ins_loc t) (used_buckets t)"
    and "distinct (map loc (used_buckets t))"
    and "list_all (\<lambda>e. length (k_buf e) = HT_MAX_KEY_LEN \<and> k_len e + 1 < HT_MAX_KEY_LEN)
       (values_arr t)"
  using assms unfolding table_inv_def by blast+

lemma table_inv_probe_loc_less:
  assumes "table_inv t"
  shows "probe_loc t hc d < cap t"
proof -
  obtain k where "k \<le> 31" "cap t = 2 ^ k" using table_invD(1)[OF assms] by blast
  then show ?thesis using probe_loc_less[of t k hc d] by simp
qed

lemma table_inv_put_update:
  assumes "table_inv t"
  shows "table_inv (put_update t b val)"
proof -
  let ?t' = "put_update t b val"
  obtain k where k: "4 \<le> k" "k \<le> 31" "cap t = 2 ^ k" using table_invD(1)[OF assms] by blast
  have same: "index ?t' = index t" "cap ?t' = cap t" "n_elems ?t' = n_elems t"
    "ins_loc ?t' = ins_loc t" by (simp_all add: put_update_def)
  let ?R = "\<lambda>e. length (k_buf e) = HT_MAX_KEY_LEN \<and> k_len e + 1 < HT_MAX_KEY_LEN"
  have R: "list_all ?R (values_arr t)" by (rule table_invD(9)[OF assms])
  have "?R ((values_arr t ! loc b)\<lparr>v_ptr := val\<rparr>)" if "loc b < length (values_arr t)"
    using R that by (simp add: list_all_length)
  then have v: "list_all ?R (values_arr ?t')"
    unfolding put_update_def using list_all_update[OF R] by simp
  show ?thesis
    using k table_invD(2-8)[OF assms] v
    by (intro table_invI[of k]) (simp_all add: same occupied_count_def used_buckets_def,
        simp add: put_update_def)
qed


lemma used_bucket_loc:
  assumes "table_inv t" "j < cap t" "state (index t ! j) \<noteq> HT_EMPTY_BUCKET"
  shows "loc (index t ! j) < ins_loc t"
proof -
  have "index t ! j \<in> set (used_buckets t)"
    using assms table_invD(2)[OF assms(1)] by (simp add: used_buckets_def)
  then show ?thesis using table_invD(7)[OF assms(1)] by (simp add: list_all_iff)
qed

lemma stored_key_ok:
  assumes "length kb = HT_MAX_KEY_LEN" "store_key kb key key_len = Inr kb'"
  shows "length kb' = HT_MAX_KEY_LEN \<and> key_len + 1 < HT_MAX_KEY_LEN"
  using assms store_key_Inr[OF assms(2)] by (simp add: length_strncpy)

lemma table_inv_put_insert:
  assumes inv: "table_inv t" and il: "ins_loc t < cap t" and j: "j < cap t"
    and st: "state (index t ! j) \<noteq> HT_BUCKET_OCCUPIED"
    and r: "put_insert t j d key key_len val hc = Inr (r, t')"
  shows "table_inv t'"
proof -
  obtain k where k: "4 \<le> k" "k \<le> 31" "cap t = 2 ^ k" using table_invD(1)[OF inv] by blast
  note D = table_invD(2-9)[OF inv]
  let ?b = "index t ! j"
  let ?R = "\<lambda>e. length (k_buf e) = HT_MAX_KEY_LEN \<and> k_len e + 1 < HT_MAX_KEY_LEN"
  let ?Q = "\<lambda>b. state b \<noteq> HT_EMPTY_BUCKET"
  let ?O = "\<lambda>b. state b = HT_BUCKET_OCCUPIED"
  have jl: "j < length (index t)" using j D(1) by simp
  show ?thesis
  proof (cases "state ?b = HT_EMPTY_BUCKET")
    case True
    let ?e = "values_arr t ! ins_loc t"
    let ?nb = "\<lparr>hashcode = hc, loc = ins_loc t, state = HT_BUCKET_OCCUPIED\<rparr>"
    obtain kb where sk: "store_key (k_buf ?e) key key_len = Inr kb"
      and t': "t' = t\<lparr>ins_loc := ins_loc t + 1,
                values_arr := (values_arr t)
                  [ins_loc t := ?e\<lparr>k_buf := kb, k_len := key_len, v_ptr := val\<rparr>],
                index := (index t)[j := ?nb],
                max_probe := (if d > max_probe t then d else max_probe t),
                n_elems := n_elems t + 1\<rparr>"
      using r True by (auto simp add: put_insert_def Let_def split: sum.splits)
    have e: "?R ?e" using D(8) il D(2) by (simp add: list_all_length)
    have kb: "length kb = HT_MAX_KEY_LEN \<and> key_len + 1 < HT_MAX_KEY_LEN"
      using stored_key_ok[OF _ sk] e by simp
    have c1: "occupied_count t' = Suc (occupied_count t)"
      unfolding occupied_count_def t' using update_filter_length_add[OF jl, of ?O ?nb] st by simp
    have c2: "length (used_buckets t') = Suc (length (used_buckets t))"
      unfolding used_buckets_def t' using update_filter_length_add[OF jl, of ?Q ?nb] True by simp
    have "list_all (\<lambda>b. loc b < ins_loc t + 1) (used_buckets t)"
      using D(6) by (simp add: list_all_iff) force
    then have c3: "list_all (\<lambda>b. loc b < ins_loc t') (used_buckets t')"
      unfolding used_buckets_def t' by (simp add: list_all_filter_update)
    have c4: "distinct (map loc (used_buckets t'))"
      unfolding used_buckets_def t' using D(6,7) True jl
      by (simp, intro update_filter_distinct_new)
         (auto simp add: used_buckets_def list_all_iff)
    have c5: "list_all ?R (values_arr t')"
      unfolding t' using kb D(8) by (simp add: list_all_update)
    show ?thesis
      using k D(1-5) il c1 c2 c3 c4 c5
      by (intro table_invI[of k]) (simp_all, simp_all add: t')
  next
    case False
    then have del: "?Q ?b" by simp
    let ?e = "values_arr t ! loc ?b"
    let ?nb = "\<lparr>hashcode = hc, loc = loc ?b, state = HT_BUCKET_OCCUPIED\<rparr>"
    obtain kb where sk: "store_key (k_buf ?e) key key_len = Inr kb"
      and t': "t' = t\<lparr>values_arr := (values_arr t)
                  [loc ?b := ?e\<lparr>k_buf := kb, k_len := key_len, v_ptr := val\<rparr>],
                index := (index t)[j := ?nb],
                max_probe := (if d > max_probe t then d else max_probe t),
                n_elems := n_elems t + 1\<rparr>"
      using r False by (auto simp add: put_insert_def Let_def split: sum.splits)
    have lb: "loc ?b < ins_loc t" using used_bucket_loc[OF inv j] False by simp
    have e: "?R ?e" using D(8) lb D(5) D(2) by (simp add: list_all_length)
    have kb: "length kb = HT_MAX_KEY_LEN \<and> key_len + 1 < HT_MAX_KEY_LEN"
      using stored_key_ok[OF _ sk] e by simp
    have c1: "occupied_count t' = Suc (occupied_count t)"
      unfolding occupied_count_def t' using update_filter_length_add[OF jl, of ?O ?nb] st by simp
    have c2: "map loc (used_buckets t') = map loc (used_buckets t)"
      unfolding used_buckets_def t' using update_filter_map_same[OF jl, of ?Q ?nb loc] del by simp
    then have c2': "length (used_buckets t') = length (used_buckets t)"
      using map_eq_imp_length_eq by blast
    have c3: "list_all (\<lambda>b. loc b < ins_loc t') (used_buckets t')"
      unfolding used_buckets_def t' using D(6) lb
      by (simp add: list_all_filter_update used_buckets_def)
    have c5: "list_all ?R (values_arr t')"
      unfolding t' using kb D(8) by (simp add: list_all_update)
    show ?thesis
      using k D(1-5,7) c1 c2 c2' c3 c5
      by (intro table_invI[of k]) (simp_all, simp_all add: t')
  qed
qed


lemma table_inv_remove_at:
  assumes inv: "table_inv t" and j: "j < cap t"
    and st: "state (index t ! j) = HT_BUCKET_OCCUPIED"
  shows "table_inv (snd (remove_at t j))"
proof -
  obtain k where k: "4 \<le> k" "k \<le> 31" "cap t = 2 ^ k" using table_invD(1)[OF inv] by blast
  note D = table_invD(2-9)[OF inv]
  let ?b = "index t ! j"
  let ?e = "values_arr t ! loc ?b"
  let ?R = "\<lambda>e. length (k_buf e) = HT_MAX_KEY_LEN \<and> k_len e + 1 < HT_MAX_KEY_LEN"
  let ?Q = "\<lambda>b. state b \<noteq> HT_EMPTY_BUCKET"
  let ?O = "\<lambda>b. state b = HT_BUCKET_OCCUPIED"
  let ?nb = "?b\<lparr>state := HT_DELETED_BUCKET, hashcode := 0\<rparr>"
  define t' where "t' = snd (remove_at t j)"
  have t': "t' = t\<lparr>values_arr := (values_arr t)
                  [loc ?b := ?e\<lparr>k_buf := (k_buf ?e)[0 := 0], k_len := 0, v_ptr := NULL\<rparr>],
                index := (index t)[j := ?nb],
                n_elems := n_elems t - 1\<rparr>"
    by (simp add: t'_def remove_at_def Let_def)
  have jl: "j < length (index t)" using j D(1) by simp
  have c1: "Suc (occupied_count t') = occupied_count t"
    unfolding occupied_count_def t' using update_filter_length_sub[OF jl, of ?O ?nb] st by simp
  have c2: "map loc (used_buckets t') = map loc (used_buckets t)"
    unfolding used_buckets_def t' using update_filter_map_same[OF jl, of ?Q ?nb loc] st by simp
  then have c2': "length (used_buckets t') = length (used_buckets t)"
    using map_eq_imp_length_eq by blast
  have lb: "loc ?b < ins_loc t" using used_bucket_loc[OF inv j] st by simp
  have c3: "list_all (\<lambda>b. loc b < ins_loc t') (used_buckets t')"
    unfolding used_buckets_def t' using D(6) lb
    by (simp add: list_all_filter_update used_buckets_def)
  have e: "?R ?e" using D(8) lb D(5) D(2) by (simp add: list_all_length)
  have c5: "list_all ?R (values_arr t')"
    unfolding t' using e D(8) by (simp add: list_all_update HT_MAX_KEY_LEN_def)
  have "table_inv t'"
    using k D(1-5,7) c1 c2 c2' c3 c5
    by (intro table_invI[of k]) (simp_all, simp_all add: t')
  then show ?thesis by (simp add: t'_def)
qed

lemma remove_probe_cases:
  assumes "P (NULL, t)"
    and "\<And>d. pl \<le> d \<Longrightarrow> d \<le> max_probe t \<Longrightarrow> key_match t key key_len hc d
      \<Longrightarrow> P (remove_at t (probe_loc t hc d))"
  shows "P (remove_probe t key key_len hc pl)"
  using assms
proof (induction "max_probe t + 1 - pl" arbitrary: pl)
  case 0
  then have n: "\<not> pl \<le> max_probe t" by simp
  then show ?case using "0.prems"(1) by (simp add: remove_probe.simps[of _ _ _ _ pl])
next
  case (Suc m)
  then have le: "pl \<le> max_probe t" by simp
  have IH: "P (remove_probe t key key_len hc (pl + 1))"
  proof (rule Suc.hyps(1))
    show "m = max_probe t + 1 - (pl + 1)" using Suc.hyps(2) by simp
    show "P (NULL, t)" by (rule Suc.prems(1))
    show "P (remove_at t (probe_loc t hc d))"
      if "pl + 1 \<le> d" "d \<le> max_probe t" "key_match t key key_len hc d" for d
      using Suc.prems(2)[of d] that by simp
  qed
  show ?case
  proof (cases "key_match t key key_len hc pl")
    case True
    then have "remove_probe t key key_len hc pl = remove_at t (probe_loc t hc pl)"
      using le by (simp add: remove_probe.simps[of _ _ _ _ pl] key_match_def Let_def)
    then show ?thesis using Suc.prems(2)[OF _ le True] by simp
  next
    case False
    then have "remove_probe t key key_len hc pl = (NULL, t)
        \<or> remove_probe t key key_len hc pl = remove_probe t key key_len hc (pl + 1)"
      using le by (auto simp add: remove_probe.simps[of _ _ _ _ pl] key_match_def Let_def)
    then show ?thesis using IH Suc.prems(1) by auto
  qed
qed

lemma table_inv_remove:
  assumes "table_inv t"
  shows "table_inv (snd (HT_remove t key key_len))"
proof -
  have "table_inv (snd (remove_probe t kb key_len hc 0))" for kb hc
  proof (rule remove_probe_cases)
    show "table_inv (snd (NULL, t))" using assms by simp
    show "table_inv (snd (remove_at t (probe_loc t hc d)))"
      if "key_match t kb key_len hc d" for d
      using that table_inv_probe_loc_less[OF assms]
      by (intro table_inv_remove_at[OF assms]) (simp_all add: key_match_def)
  qed
  then show ?thesis using assms by (simp add: HT_remove_def split: option.splits)
qed


subsection \<open>Rounding up to a power of two\<close>

lemma smear_step:
  fixes v x :: ulong
  assumes "\<And>i. bit v i \<longleftrightarrow> (\<exists>d<j. bit x (i + d))"
  shows "bit (v OR drop_bit j v) i \<longleftrightarrow> (\<exists>d<2 * j. bit x (i + d))"
proof -
  have "bit (v OR drop_bit j v) i \<longleftrightarrow> bit v i \<or> bit v (j + i)"
    by (simp add: bit_simps)
  also have "\<dots> \<longleftrightarrow> (\<exists>d<j. bit x (i + d)) \<or> (\<exists>d<j. bit x (j + i + d))"
    by (simp add: assms)
  also have "\<dots> \<longleftrightarrow> (\<exists>d<2 * j. bit x (i + d))"
  proof
    assume "(\<exists>d<j. bit x (i + d)) \<or> (\<exists>d<j. bit x (j + i + d))"
    then show "\<exists>d<2 * j. bit x (i + d)"
    proof
      assume "\<exists>d<j. bit x (i + d)"
      then obtain d where "d < j" "bit x (i + d)" by blast
      then show ?thesis by (intro exI[of _ d]) simp
    next
      assume "\<exists>d<j. bit x (j + i + d)"
      then obtain d where "d < j" "bit x (j + i + d)" by blast
      then show ?thesis by (intro exI[of _ "j + d"]) (simp add: ac_simps)
    qed
  next
    assume "\<exists>d<2 * j. bit x (i + d)"
    then obtain d where d: "d < 2 * j" "bit x (i + d)" by blast
    show "(\<exists>d<j. bit x (i + d)) \<or> (\<exists>d<j. bit x (j + i + d))"
    proof (cases "d < j")
      case True
      with d show ?thesis by blast
    next
      case False
      with d have "d - j < j" "bit x (j + i + (d - j))" by (simp_all add: ac_simps)
      then show ?thesis by blast
    qed
  qed
  finally show ?thesis .
qed

lemma smear_bits:
  fixes x :: ulong
  shows "bit (let v1 = x OR drop_bit 1 x; v2 = v1 OR drop_bit 2 v1; v3 = v2 OR drop_bit 4 v2;
                v4 = v3 OR drop_bit 8 v3; v5 = v4 OR drop_bit 16 v4 in v5) i
         \<longleftrightarrow> (\<exists>d<32. bit x (i + d))"
proof -
  define v1 where "v1 = x OR drop_bit 1 x"
  define v2 where "v2 = v1 OR drop_bit 2 v1"
  define v3 where "v3 = v2 OR drop_bit 4 v2"
  define v4 where "v4 = v3 OR drop_bit 8 v3"
  define v5 where "v5 = v4 OR drop_bit 16 v4"
  have b0: "\<And>i. bit x i \<longleftrightarrow> (\<exists>d<1. bit x (i + d))" by simp
  have b1: "\<And>i. bit v1 i \<longleftrightarrow> (\<exists>d<2. bit x (i + d))"
    unfolding v1_def using smear_step[of x 1 x, OF b0] by simp
  have b2: "\<And>i. bit v2 i \<longleftrightarrow> (\<exists>d<4. bit x (i + d))"
    unfolding v2_def using smear_step[of v1 2 x, OF b1] by simp
  have b3: "\<And>i. bit v3 i \<longleftrightarrow> (\<exists>d<8. bit x (i + d))"
    unfolding v3_def using smear_step[of v2 4 x, OF b2] by simp
  have b4: "\<And>i. bit v4 i \<longleftrightarrow> (\<exists>d<16. bit x (i + d))"
    unfolding v4_def using smear_step[of v3 8 x, OF b3] by simp
  have b5: "\<And>i. bit v5 i \<longleftrightarrow> (\<exists>d<32. bit x (i + d))"
    unfolding v5_def using smear_step[of v4 16 x, OF b4] by simp
  have "(let v1 = x OR drop_bit 1 x; v2 = v1 OR drop_bit 2 v1; v3 = v2 OR drop_bit 4 v2;
             v4 = v3 OR drop_bit 8 v3; v5 = v4 OR drop_bit 16 v4 in v5) = v5"
    by (simp add: Let_def v1_def v2_def v3_def v4_def v5_def)
  with b5 show ?thesis by simp
qed

lemma top_bit_exists:
  fixes x :: ulong
  assumes "x \<noteq> 0"
  shows "\<exists>m. bit x m \<and> (\<forall>i. m < i \<longrightarrow> \<not> bit x i)"
proof -
  define S where "S = {i. bit x i}"
  have fin: "finite S"
  proof (rule finite_subset)
    show "S \<subseteq> {..<64}" unfolding S_def using bit_imp_le_length[of x] by auto
  qed simp
  have ne: "S \<noteq> {}"
  proof
    assume "S = {}"
    then have "\<And>i. \<not> bit x i" unfolding S_def by blast
    then have "x = 0" by (intro bit_eqI) simp
    with assms show False by contradiction
  qed
  have "Max S \<in> S" using fin ne by (rule Max_in)
  then have 1: "bit x (Max S)" unfolding S_def by simp
  have 2: "\<not> bit x i" if "Max S < i" for i
  proof
    assume "bit x i"
    then have "i \<in> S" unfolding S_def by simp
    then have "i \<le> Max S" using fin by (rule Max_ge[rotated])
    with that show False by simp
  qed
  from 1 2 show ?thesis by blast
qed

lemma bit_imp_pow_le:
  fixes x :: ulong
  assumes "bit x m"
  shows "2 ^ m \<le> unat x"
proof (rule ccontr)
  assume "\<not> 2 ^ m \<le> unat x"
  then have "unat x div 2 ^ m = 0" by simp
  then have "\<not> bit (unat x) m" by (simp add: bit_iff_odd)
  then show False using assms by (simp add: bit_unsigned_iff)
qed

lemma top_imp_less:
  fixes x :: ulong
  assumes "\<And>i. m < i \<Longrightarrow> \<not> bit x i"
  shows "unat x < 2 ^ Suc m"
proof -
  have "take_bit (Suc m) x = x"
  proof (rule bit_eqI)
    fix i
    show "bit (take_bit (Suc m) x) i = bit x i"
      using assms[of i] by (cases "m < i") (auto simp add: bit_take_bit_iff)
  qed
  then have "unat x = unat (take_bit (Suc m) x)" by simp
  also have "\<dots> = take_bit (Suc m) (unat x)" by (rule unsigned_take_bit_eq)
  also have "\<dots> < 2 ^ Suc m" by (rule take_bit_nat_less_exp)
  finally show ?thesis .
qed

lemma unat_pow2:
  assumes "k < 64"
  shows "unat ((2::ulong) ^ k) = 2 ^ k"
proof -
  have "(2::nat) ^ k < 2 ^ 64" using assms by (rule power_strict_increasing) simp
  moreover have "(2::ulong) ^ k = of_nat (2 ^ k)" by simp
  ultimately show ?thesis by (simp only: unat_of_nat) simp
qed

lemma pow2_lessD:
  assumes "(2::nat) ^ a < 2 ^ b"
  shows "a < b"
  by (rule power_less_imp_less_exp[of 2]) (simp, rule assms)

lemma pow2_leD:
  assumes "(2::nat) ^ a \<le> 2 ^ b"
  shows "a \<le> b"
  by (rule power_le_imp_le_exp[of 2]) (simp, rule assms)

lemma HT_round_up_pow2:
  assumes "1 < val" "val \<le> 2 ^ 32"
  shows "\<exists>k. HT_round_up val = 2 ^ k \<and> val \<le> 2 ^ k \<and> 2 ^ k < 2 * val"
proof -
  define x :: ulong where "x = of_nat val - 1"
  have "val < 2 ^ 64" using assms(2) by (rule le_less_trans) simp
  then have ux: "unat x = val - 1"
    unfolding x_def using assms(1) by (simp add: unat_sub word_le_nat_alt unat_of_nat)
  then have "x \<noteq> 0" using assms(1) by auto
  then obtain m where m: "bit x m" "\<And>i. m < i \<Longrightarrow> \<not> bit x i"
    using top_bit_exists[of x] by blast
  have lo: "2 ^ m \<le> val - 1" using bit_imp_pow_le[OF m(1)] ux by simp
  have hi: "val - 1 < 2 ^ Suc m" using top_imp_less[OF m(2)] ux by simp
  have p32: "(2::nat) ^ m < 2 ^ 32" using lo assms by linarith
  have m32: "m < 32" by (rule power_less_imp_less_exp[of 2]) (simp, rule p32)
  define s where "s = (let v1 = x OR drop_bit 1 x; v2 = v1 OR drop_bit 2 v1;
     v3 = v2 OR drop_bit 4 v2; v4 = v3 OR drop_bit 8 v3; v5 = v4 OR drop_bit 16 v4 in v5)"
  have sb: "bit s i \<longleftrightarrow> (\<exists>d<32. bit x (i + d))" for i
    unfolding s_def by (rule smear_bits)
  have "s = mask (Suc m)"
  proof (rule bit_eqI)
    fix i
    show "bit s i \<longleftrightarrow> bit (mask (Suc m) :: ulong) i"
    proof (cases "i \<le> m")
      case True
      then have "m - i < 32" "bit x (i + (m - i))" using m(1) m32 by simp_all
      then have "bit s i" unfolding sb by blast
      moreover have "i < 64" using True m32 by simp
      ultimately show ?thesis using True by (simp add: bit_simps)
    next
      case False
      then have "\<not> bit s i" unfolding sb using m(2) by auto
      then show ?thesis using False by (simp add: bit_simps)
    qed
  qed
  then have "s + 1 = 2 ^ Suc m" by (simp only: inc_mask_eq_exp)
  moreover have "HT_round_up val = unat (s + 1)"
    by (simp add: HT_round_up_def s_def x_def Let_def)
  ultimately have "HT_round_up val = 2 ^ Suc m"
    using unat_pow2[of "Suc m"] m32 by simp
  moreover have "val \<le> 2 ^ Suc m" using hi by simp
  moreover have "(2::nat) ^ Suc m < 2 * val" using lo assms(1) by simp
  ultimately show ?thesis by blast
qed

lemma HT_round_up_double:
  assumes "k \<le> 31"
  shows "HT_round_up (2 ^ k * 2) = 2 ^ Suc k"
proof -
  have "(2::nat) ^ Suc k \<le> 2 ^ 32" using assms by (intro power_increasing) simp_all
  moreover have "(2::nat) ^ 0 < 2 ^ Suc k" by (rule power_strict_increasing) simp_all
  then have "1 < (2::nat) ^ Suc k" by simp
  ultimately obtain k' where k': "HT_round_up (2 ^ Suc k) = 2 ^ k'"
    "(2::nat) ^ Suc k \<le> 2 ^ k'" "(2::nat) ^ k' < 2 * 2 ^ Suc k"
    using HT_round_up_pow2[of "2 ^ Suc k"] by blast
  have "Suc k \<le> k'" by (rule power_le_imp_le_exp[of 2]) (simp, rule k'(2))
  moreover have p: "(2::nat) ^ k' < 2 ^ Suc (Suc k)" using k'(3) by simp
  have "k' < Suc (Suc k)" by (rule power_less_imp_less_exp[of 2]) (simp, rule p)
  ultimately have "k' = Suc k" by simp
  then show ?thesis using k'(1) by (simp add: mult.commute)
qed


subsection \<open>The rebuild of the index\<close>

lemma expand_probe_cases:
  assumes "(\<forall>d. pl \<le> d \<and> d \<le> cap t
        \<longrightarrow> state (index t ! probe_loc t (hashcode b) d) = HT_BUCKET_OCCUPIED) \<Longrightarrow> P t"
    and "\<And>d. pl \<le> d \<Longrightarrow> d \<le> cap t
      \<Longrightarrow> (\<forall>d'. pl \<le> d' \<and> d' < d
            \<longrightarrow> state (index t ! probe_loc t (hashcode b) d') = HT_BUCKET_OCCUPIED)
      \<Longrightarrow> state (index t ! probe_loc t (hashcode b) d) \<noteq> HT_BUCKET_OCCUPIED
      \<Longrightarrow> P (t\<lparr>index := (index t)[probe_loc t (hashcode b) d := b],
               max_probe := (if d > max_probe t then d else max_probe t)\<rparr>)"
  shows "P (expand_probe t b pl)"
  using assms
proof (induction "cap t + 1 - pl" arbitrary: pl)
  case 0
  then have n: "\<not> pl \<le> cap t" by simp
  then have "\<forall>d. pl \<le> d \<and> d \<le> cap t
        \<longrightarrow> state (index t ! probe_loc t (hashcode b) d) = HT_BUCKET_OCCUPIED" by auto
  then have "P t" by (rule "0.prems"(1))
  then show ?case using n by (simp add: expand_probe.simps[of _ _ pl])
next
  case (Suc m)
  then have le: "pl \<le> cap t" by simp
  show ?case
  proof (cases "state (index t ! probe_loc t (hashcode b) pl) = HT_BUCKET_OCCUPIED")
    case False
    then have "expand_probe t b pl = t\<lparr>index := (index t)[probe_loc t (hashcode b) pl := b],
               max_probe := (if pl > max_probe t then pl else max_probe t)\<rparr>"
      using le by (simp add: expand_probe.simps[of _ _ pl] Let_def)
    moreover have "\<forall>d'. pl \<le> d' \<and> d' < pl
        \<longrightarrow> state (index t ! probe_loc t (hashcode b) d') = HT_BUCKET_OCCUPIED" by auto
    ultimately show ?thesis using Suc.prems(2)[OF _ le _ False] by simp
  next
    case True
    then have eq: "expand_probe t b pl = expand_probe t b (pl + 1)"
      using le by (simp add: expand_probe.simps[of _ _ pl] Let_def)
    have "P (expand_probe t b (pl + 1))"
    proof (rule Suc.hyps(1))
      show "m = cap t + 1 - (pl + 1)" using Suc.hyps(2) by simp
    next
      assume a: "\<forall>d. pl + 1 \<le> d \<and> d \<le> cap t
        \<longrightarrow> state (index t ! probe_loc t (hashcode b) d) = HT_BUCKET_OCCUPIED"
      have "\<forall>d. pl \<le> d \<and> d \<le> cap t
        \<longrightarrow> state (index t ! probe_loc t (hashcode b) d) = HT_BUCKET_OCCUPIED"
      proof (intro allI impI)
        fix d assume "pl \<le> d \<and> d \<le> cap t"
        then show "state (index t ! probe_loc t (hashcode b) d) = HT_BUCKET_OCCUPIED"
          using a True by (cases "d = pl") auto
      qed
      then show "P t" by (rule Suc.prems(1))
    next
      fix d
      assume d: "pl + 1 \<le> d" "d \<le> cap t"
        "state (index t ! probe_loc t (hashcode b) d) \<noteq> HT_BUCKET_OCCUPIED"
        and a: "\<forall>d'. pl + 1 \<le> d' \<and> d' < d
            \<longrightarrow> state (index t ! probe_loc t (hashcode b) d') = HT_BUCKET_OCCUPIED"
      have "\<forall>d'. pl \<le> d' \<and> d' < d
            \<longrightarrow> state (index t ! probe_loc t (hashcode b) d') = HT_BUCKET_OCCUPIED"
      proof (intro allI impI)
        fix d' assume "pl \<le> d' \<and> d' < d"
        then show "state (index t ! probe_loc t (hashcode b) d') = HT_BUCKET_OCCUPIED"
          using a True by (cases "d' = pl") auto
      qed
      then show "P (t\<lparr>index := (index t)[probe_loc t (hashcode b) d := b],
               max_probe := (if d > max_probe t then d else max_probe t)\<rparr>)"
        using Suc.prems(2)[of d] d by simp
    qed
    then show ?thesis by (simp only: eq)
  qed
qed

text \<open>While fewer buckets are occupied than the index has, the rebuild finds a place.\<close>

lemma free_bucket_exists:
  assumes "length xs = c" "length (filter (\<lambda>b. state b = HT_BUCKET_OCCUPIED) xs) < c"
  shows "\<exists>j<c. state (xs ! j) \<noteq> HT_BUCKET_OCCUPIED"
proof (rule ccontr)
  assume "\<not> (\<exists>j<c. state (xs ! j) \<noteq> HT_BUCKET_OCCUPIED)"
  then have "\<forall>b\<in>set xs. state b = HT_BUCKET_OCCUPIED"
    using assms(1) by (auto simp add: in_set_conv_nth)
  then have "filter (\<lambda>b. state b = HT_BUCKET_OCCUPIED) xs = xs" by simp
  then show False using assms by simp
qed

lemma expand_probe_adds:
  assumes rb: "rebuilding k t" and occ: "state b = HT_BUCKET_OCCUPIED"
    and room: "occupied_count t < cap t"
  shows "rebuilding k (expand_probe t b 0)
    \<and> mset (filter (\<lambda>b. state b = HT_BUCKET_OCCUPIED) (index (expand_probe t b 0)))
        = add_mset b (mset (filter (\<lambda>b. state b = HT_BUCKET_OCCUPIED) (index t)))
    \<and> (\<exists>ix mp. expand_probe t b 0 = t\<lparr>index := ix, max_probe := mp\<rparr>)"
proof (rule expand_probe_cases)
  assume all: "\<forall>d. 0 \<le> d \<and> d \<le> cap t
        \<longrightarrow> state (index t ! probe_loc t (hashcode b) d) = HT_BUCKET_OCCUPIED"
  obtain j where j: "j < cap t" "state (index t ! j) \<noteq> HT_BUCKET_OCCUPIED"
    using free_bucket_exists[of "index t" "cap t"] rb room
    by (auto simp add: rebuilding_def occupied_count_def)
  obtain d where "d < cap t" "probe_loc t (hashcode b) d = j"
    using probe_loc_cover[of t k j "hashcode b"] rb j(1) by (auto simp add: rebuilding_def)
  then have False using all j(2) by auto
  then show "rebuilding k t
    \<and> mset (filter (\<lambda>b. state b = HT_BUCKET_OCCUPIED) (index t))
        = add_mset b (mset (filter (\<lambda>b. state b = HT_BUCKET_OCCUPIED) (index t)))
    \<and> (\<exists>ix mp. t = t\<lparr>index := ix, max_probe := mp\<rparr>)" by simp
next
  fix d
  let ?j = "probe_loc t (hashcode b) d"
  let ?t' = "t\<lparr>index := (index t)[?j := b],
               max_probe := (if d > max_probe t then d else max_probe t)\<rparr>"
  assume free: "state (index t ! ?j) \<noteq> HT_BUCKET_OCCUPIED"
  have jl: "?j < length (index t)"
    using probe_loc_less[of t k "hashcode b" d] rb by (simp add: rebuilding_def)
  have 1: "rebuilding k ?t'"
    using rb occ by (simp add: rebuilding_def list_all_update)
  have "filter (\<lambda>b. state b = HT_BUCKET_OCCUPIED) (index ?t')
      = filter (\<lambda>b. state b = HT_BUCKET_OCCUPIED) (take ?j (index t)) @ [b]
        @ filter (\<lambda>b. state b = HT_BUCKET_OCCUPIED) (drop (Suc ?j) (index t))"
    using occ jl by (simp add: filter_update_split)
  moreover have "filter (\<lambda>b. state b = HT_BUCKET_OCCUPIED) (index t)
      = filter (\<lambda>b. state b = HT_BUCKET_OCCUPIED) (take ?j (index t))
        @ filter (\<lambda>b. state b = HT_BUCKET_OCCUPIED) (drop (Suc ?j) (index t))"
    using free jl by (simp add: filter_split_at[of ?j "index t"])
  ultimately have 2: "mset (filter (\<lambda>b. state b = HT_BUCKET_OCCUPIED) (index ?t'))
        = add_mset b (mset (filter (\<lambda>b. state b = HT_BUCKET_OCCUPIED) (index t)))"
    by simp
  have 3: "\<exists>ix mp. ?t' = t\<lparr>index := ix, max_probe := mp\<rparr>" by blast
  from 1 2 3 show "rebuilding k ?t'
    \<and> mset (filter (\<lambda>b. state b = HT_BUCKET_OCCUPIED) (index ?t'))
        = add_mset b (mset (filter (\<lambda>b. state b = HT_BUCKET_OCCUPIED) (index t)))
    \<and> (\<exists>ix mp. ?t' = t\<lparr>index := ix, max_probe := mp\<rparr>)" by blast
qed

lemma copy_index_props:
  assumes "rebuilding k t"
    and "occupied_count t + length (filter (\<lambda>b. state b = HT_BUCKET_OCCUPIED) bs) \<le> cap t"
  shows "rebuilding k (copy_index bs t)
    \<and> mset (filter (\<lambda>b. state b = HT_BUCKET_OCCUPIED) (index (copy_index bs t)))
        = mset (filter (\<lambda>b. state b = HT_BUCKET_OCCUPIED) (index t))
          + mset (filter (\<lambda>b. state b = HT_BUCKET_OCCUPIED) bs)
    \<and> (\<exists>ix mp. copy_index bs t = t\<lparr>index := ix, max_probe := mp\<rparr>)"
  using assms
proof (induction bs arbitrary: t)
  case Nil
  have "t = t\<lparr>index := index t, max_probe := max_probe t\<rparr>" by simp
  then have "\<exists>ix mp. t = t\<lparr>index := ix, max_probe := mp\<rparr>" by blast
  then show ?case using Nil by simp
next
  case (Cons b bs)
  show ?case
  proof (cases "state b = HT_BUCKET_OCCUPIED")
    case False
    then show ?thesis using Cons.IH[of t] Cons.prems by simp
  next
    case True
    let ?t1 = "expand_probe t b 0"
    have room: "occupied_count t < cap t" using Cons.prems(2) True by simp
    note A = expand_probe_adds[OF Cons.prems(1) True room]
    obtain ix mp where t1: "?t1 = t\<lparr>index := ix, max_probe := mp\<rparr>" using A by blast
    have c1: "cap ?t1 = cap t" by (subst t1) simp
    have m: "mset (filter (\<lambda>b. state b = HT_BUCKET_OCCUPIED) (index ?t1))
        = add_mset b (mset (filter (\<lambda>b. state b = HT_BUCKET_OCCUPIED) (index t)))"
      using A by blast
    have "occupied_count ?t1
        = size (mset (filter (\<lambda>b. state b = HT_BUCKET_OCCUPIED) (index ?t1)))"
      by (simp only: occupied_count_def size_mset)
    also have "\<dots> = size (add_mset b (mset (filter (\<lambda>b. state b = HT_BUCKET_OCCUPIED) (index t))))"
      by (simp only: m)
    also have "\<dots> = Suc (occupied_count t)"
      by (simp only: occupied_count_def size_add_mset size_mset)
    finally have o1: "occupied_count ?t1 = Suc (occupied_count t)" .
    have "occupied_count ?t1 + length (filter (\<lambda>b. state b = HT_BUCKET_OCCUPIED) bs) \<le> cap ?t1"
      using Cons.prems(2) True c1 o1 by simp
    note B = Cons.IH[OF conjunct1[OF A] this]
    obtain ix' mp' where t2: "copy_index bs ?t1 = ?t1\<lparr>index := ix', max_probe := mp'\<rparr>"
      using B by blast
    have "copy_index bs ?t1 = t\<lparr>index := ix', max_probe := mp'\<rparr>"
      by (subst t2, subst t1) simp
    then have "\<exists>ix mp. copy_index (b # bs) t = t\<lparr>index := ix, max_probe := mp\<rparr>"
      using True by auto
    then show ?thesis using A B True by simp
  qed
qed


lemma used_eq_occupied:
  assumes "list_all (\<lambda>b. state b \<noteq> HT_DELETED_BUCKET) xs"
  shows "filter (\<lambda>b. state b \<noteq> HT_EMPTY_BUCKET) xs
    = filter (\<lambda>b. state b = HT_BUCKET_OCCUPIED) xs"
proof (rule filter_cong[OF refl])
  fix b assume "b \<in> set xs"
  then have "state b \<noteq> HT_DELETED_BUCKET" using assms by (simp add: list_all_iff)
  then show "(state b \<noteq> HT_EMPTY_BUCKET) = (state b = HT_BUCKET_OCCUPIED)"
    by (cases "state b") simp_all
qed

lemma occupied_of_used:
  "filter (\<lambda>b. state b = HT_BUCKET_OCCUPIED) xs
    = filter (\<lambda>b. state b = HT_BUCKET_OCCUPIED) (filter (\<lambda>b. state b \<noteq> HT_EMPTY_BUCKET) xs)"
  by (induction xs) auto

lemma empty_entry_ok:
  "length (k_buf empty_entry) = HT_MAX_KEY_LEN \<and> k_len empty_entry + 1 < HT_MAX_KEY_LEN"
  by (simp add: empty_entry_def HT_MAX_KEY_LEN_def)

lemma HT_expand_result:
  assumes inv: "table_inv t" and ex: "HT_expand t index_ok values_ok = Inr (Some t')"
  shows "table_inv t'" and "ins_loc t' < cap t'" and "cap t' = 2 * cap t"
    and "n_elems t' = n_elems t" and "ins_loc t' = ins_loc t"
    and "cmp t' = cmp t" and "hashcode_fn t' = hashcode_fn t"
    and "load_factor t' = load_factor t"
proof -
  obtain k where k: "4 \<le> k" "k \<le> 31" "cap t = 2 ^ k" using table_invD(1)[OF inv] by blast
  note D = table_invD(2-9)[OF inv]
  let ?O = "\<lambda>b. state b = HT_BUCKET_OCCUPIED"
  have small: "cap t \<le> INT_MAX" and ok: "index_ok" "values_ok"
    using ex by (auto simp add: HT_expand_def Let_def split: if_splits)
  have "(2::nat) ^ k < 2 ^ 31" using small k(3) by (simp add: INT_MAX_def)
  then have k30: "k < 31" by (rule pow2_lessD)
  have c': "HT_round_up (cap t * 2) = 2 ^ Suc k"
    using HT_round_up_double[OF k(2)] k(3) by simp
  define t0 where "t0 = t\<lparr>index := replicate (2 ^ Suc k) empty_bucket,
      values_arr := values_arr t @ replicate (2 ^ Suc k - cap t) empty_entry,
      cap := 2 ^ Suc k, expand := HT_calc_expansion (load_factor t) (2 ^ Suc k),
      max_probe := 0\<rparr>"
  have t': "t' = copy_index (index t) t0"
    using ex small ok D(1,2) by (simp add: HT_expand_def Let_def c' t0_def)
  have rb0: "rebuilding (Suc k) t0"
    using k(2) by (simp add: rebuilding_def t0_def list_all_iff empty_bucket_def)
  have oc0: "occupied_count t0 = 0"
    by (simp add: occupied_count_def t0_def empty_bucket_def)
  have "length (filter ?O (index t)) \<le> length (index t)" by (rule length_filter_le)
  then have room: "occupied_count t0 + length (filter ?O (index t)) \<le> cap t0"
    using oc0 D(1) k(3) by (simp add: t0_def)
  note C = copy_index_props[OF rb0 room]
  obtain ix mp where shape: "t' = t0\<lparr>index := ix, max_probe := mp\<rparr>" using C t' by auto
  have rb: "rebuilding (Suc k) t'" using C t' by simp
  have "filter ?O (index t0) = []" by (simp add: t0_def empty_bucket_def)
  then have ms: "mset (filter ?O (index t')) = mset (filter ?O (index t))"
    using C t' by simp
  have used': "used_buckets t' = filter ?O (index t')"
    unfolding used_buckets_def using rb by (intro used_eq_occupied) (simp add: rebuilding_def)
  have cap': "cap t' = 2 ^ Suc k" by (subst shape) (simp add: t0_def)
  have len: "length (filter ?O (index t')) = length (filter ?O (index t))"
    using arg_cong[OF ms, of size] by (simp only: size_mset)
  have sub: "set (filter ?O (index t')) = set (filter ?O (index t))"
    using arg_cong[OF ms, of set_mset] by (simp only: set_mset_mset)
  have i1: "length (index t') = cap t'" using rb by (simp add: rebuilding_def)
  have i2: "length (values_arr t') = cap t'"
    using D(2) k(3) by (subst shape, subst shape) (simp add: t0_def)
  have i3: "n_elems t' = occupied_count t'"
    using D(3) len by (subst shape) (simp add: t0_def occupied_count_def)
  have "length (filter ?O (index t)) \<le> length (used_buckets t)"
    unfolding used_buckets_def by (subst occupied_of_used) (rule length_filter_le)
  then have i4: "length (used_buckets t') \<le> ins_loc t'"
    using D(4) len used' by (subst shape) (simp add: t0_def)
  have il: "ins_loc t' = ins_loc t" by (subst shape) (simp add: t0_def)
  have i5: "ins_loc t' \<le> cap t'" using D(5) k(3) cap' il by simp
  have p: "(0::nat) < 2 ^ k" by simp
  have "ins_loc t < 2 * 2 ^ k" using D(5) k(3) p by linarith
  then have lt: "ins_loc t' < cap t'" using cap' il by simp
  have "set (filter ?O (index t)) \<subseteq> set (used_buckets t)"
    unfolding used_buckets_def by (subst occupied_of_used) (rule filter_is_subset)
  then have i6: "list_all (\<lambda>b. loc b < ins_loc t') (used_buckets t')"
    using D(6) sub used' by (subst shape) (auto simp add: t0_def list_all_iff)
  have "distinct (map loc (filter ?O (index t)))"
    using D(7) unfolding used_buckets_def
    by (subst occupied_of_used) (rule distinct_map_filter)
  moreover have "mset (map loc (filter ?O (index t'))) = mset (map loc (filter ?O (index t)))"
    by (simp only: mset_map ms)
  ultimately have i7: "distinct (map loc (used_buckets t'))"
    using mset_eq_imp_distinct_iff used' by metis
  have i8: "list_all (\<lambda>e. length (k_buf e) = HT_MAX_KEY_LEN \<and> k_len e + 1 < HT_MAX_KEY_LEN)
       (values_arr t')"
    using D(8) empty_entry_ok by (subst shape) (auto simp add: t0_def list_all_iff)
  show "table_inv t'"
    using k(1) k30 cap' i1 i2 i3 i4 i5 i6 i7 i8 by (intro table_invI[of "Suc k"]) simp_all
  show "ins_loc t' < cap t'" by (rule lt)
  show "cap t' = 2 * cap t" using cap' k(3) by simp
  show "n_elems t' = n_elems t" "ins_loc t' = ins_loc t" "cmp t' = cmp t"
    "hashcode_fn t' = hashcode_fn t" "load_factor t' = load_factor t"
    by (subst shape; simp add: t0_def)+
qed

lemma HT_new_ex_shape:
  assumes "HT_new_ex requested_capacity lf hashcode' cmp' index_ok values_ok table_ok = Some t"
  shows "\<exists>k ex lf1. 4 \<le> k \<and> k \<le> 30 \<and>
    t = \<lparr>index = replicate (2 ^ k) empty_bucket,
         values_arr = replicate (2 ^ k) empty_entry, n_elems = 0, cap = 2 ^ k, expand = ex,
         max_probe = 0, ins_loc = 0, load_factor = lf1, cmp = cmp', hashcode_fn = hashcode'\<rparr>"
proof -
  define rc where "rc = (if (if requested_capacity < HT_DEFAULT_CAPACITY then HT_DEFAULT_CAPACITY
       else requested_capacity) > HT_MAX_CAPACITY then HT_MAX_CAPACITY
     else (if requested_capacity < HT_DEFAULT_CAPACITY then HT_DEFAULT_CAPACITY
       else requested_capacity))"
  have rc: "16 \<le> rc" "rc \<le> 2 ^ 30"
    by (simp_all add: rc_def HT_DEFAULT_CAPACITY_def HT_MAX_CAPACITY_def)
  have "rc \<le> 2 ^ 32" using rc(2) by (rule order_trans) simp
  then obtain k where k: "HT_round_up rc = 2 ^ k" "rc \<le> 2 ^ k" "2 ^ k < 2 * rc"
    using HT_round_up_pow2[of rc] rc(1) by auto
  have "(2::nat) ^ 4 \<le> 2 ^ k" using rc(1) k(2) by simp
  then have k4: "4 \<le> k" by (rule pow2_leD)
  have "(2::nat) ^ k < 2 ^ 31" using rc(2) k(3) by simp
  then have "k < 31" by (rule pow2_lessD)
  then have k30: "k \<le> 30" by simp
  obtain ex lf1 where "t = \<lparr>index = replicate (2 ^ k) empty_bucket,
      values_arr = replicate (2 ^ k) empty_entry, n_elems = 0, cap = 2 ^ k, expand = ex,
      max_probe = 0, ins_loc = 0, load_factor = lf1, cmp = cmp', hashcode_fn = hashcode'\<rparr>"
    using assms k(1) by (auto simp add: HT_new_ex_def Let_def rc_def[symmetric] split: if_splits)
  then show ?thesis using k4 k30 by blast
qed

lemma table_inv_new_ex:
  assumes "HT_new_ex requested_capacity lf hashcode' cmp' index_ok values_ok table_ok = Some t"
  shows "table_inv t"
proof -
  obtain k ex lf1 where k: "4 \<le> k" "k \<le> 30"
    and t: "t = \<lparr>index = replicate (2 ^ k) empty_bucket,
         values_arr = replicate (2 ^ k) empty_entry, n_elems = 0, cap = 2 ^ k, expand = ex,
         max_probe = 0, ins_loc = 0, load_factor = lf1, cmp = cmp', hashcode_fn = hashcode'\<rparr>"
    using HT_new_ex_shape[OF assms] by blast
  show ?thesis
    using k empty_entry_ok
    by (intro table_invI[of k])
       (simp_all add: t occupied_count_def used_buckets_def empty_bucket_def list_all_iff)
qed

lemma table_inv_put_probe:
  assumes inv: "table_inv t" and il: "ins_loc t < cap t"
    and r: "put_probe t key key_len val hc pl = Inr (r, t')"
  shows "table_inv t'"
proof -
  have "\<forall>r t'. put_probe t key key_len val hc pl = Inr (r, t') \<longrightarrow> table_inv t'"
  proof (rule put_probe_cases)
    show "\<forall>r t'. Inr (NULL, t) = Inr (r, t') \<longrightarrow> table_inv t'" using inv by simp
  next
    fix d
    show "\<forall>r t'. Inr (val, put_update t (index t ! probe_loc t hc d) val) = Inr (r, t')
        \<longrightarrow> table_inv t'"
      using table_inv_put_update[OF inv] by simp
  next
    fix d
    assume "state (index t ! probe_loc t hc d) \<noteq> HT_BUCKET_OCCUPIED"
    then show "\<forall>r t'. put_insert t (probe_loc t hc d) d key key_len val hc = Inr (r, t')
        \<longrightarrow> table_inv t'"
      using table_inv_put_insert[OF inv il table_inv_probe_loc_less[OF inv]] by blast
  qed
  then show ?thesis using r by blast
qed

lemma table_inv_put:
  assumes inv: "table_inv t"
    and r: "HT_put t key key_len val index_ok values_ok = Inr (r, t')"
  shows "table_inv t'"
proof (cases key)
  case None
  then show ?thesis using inv r by (simp add: HT_put_def)
next
  case (Some kb)
  show ?thesis
  proof (cases "key_len > HT_MAX_KEY_LEN - 1")
    case True
    then show ?thesis using inv r Some by (simp add: HT_put_def)
  next
    case len: False
    show ?thesis
    proof (cases "needs_expand t")
      case False
      then have "ins_loc t < cap t"
        using table_invD(6)[OF inv] by (simp add: needs_expand_def)
      moreover have "put_probe t kb key_len val (hashcode_fn t kb key_len) 0 = Inr (r, t')"
        using r Some len False by (simp add: HT_put_def)
      ultimately show ?thesis using table_inv_put_probe[OF inv] by blast
    next
      case True
      show ?thesis
      proof (cases "HT_expand t index_ok values_ok")
        case (Inl f)
        then show ?thesis using r Some len True by (simp add: HT_put_def)
      next
        case (Inr res)
        show ?thesis
        proof (cases res)
          case None
          then show ?thesis using r Some len True Inr inv by (simp add: HT_put_def)
        next
          case (Some t1)
          have ex: "HT_expand t index_ok values_ok = Inr (Some t1)" using Inr Some by simp
          have "put_probe t1 kb key_len val (hashcode_fn t1 kb key_len) 0 = Inr (r, t')"
            using r \<open>key = Some kb\<close> len True ex by (simp add: HT_put_def)
          then show ?thesis
            using table_inv_put_probe[OF HT_expand_result(1,2)[OF inv ex]] by blast
        qed
      qed
    qed
  qed
qed

lemma table_inv_apply_op:
  assumes "table_inv t" "apply_op t x = Inr t'"
  shows "table_inv t'"
proof (cases x)
  case (Put key key_len val index_ok values_ok)
  then obtain r where "HT_put t key key_len val index_ok values_ok = Inr (r, t')"
    using assms(2) by (auto split: sum.splits)
  then show ?thesis using table_inv_put[OF assms(1)] by blast
next
  case (Remove key key_len)
  then show ?thesis using assms table_inv_remove[OF assms(1), of key key_len] by auto
qed

lemma reachable_inv:
  assumes "reachable t"
  shows "table_inv t"
  using assms
proof (induction rule: reachable.induct)
  case (construct requested_capacity lf hashcode' cmp' index_ok values_ok table_ok t)
  then show ?case by (rule table_inv_new_ex)
next
  case (step t x t')
  then show ?case using table_inv_apply_op by blast
qed

subsection \<open>The comparator on a stored key\<close>

lemma strncmp_take:
  "strncmp s1 s2 m = strncmp s1 (take m s2) m"
proof (induction m arbitrary: s1 s2)
  case 0
  show ?case by simp
next
  case (Suc m)
  have b: "byte_at (take (Suc m) s2) 0 = byte_at s2 0"
    by (cases s2) (simp_all add: byte_at_def)
  have t: "tl (take (Suc m) s2) = take m (tl s2)"
    by (cases s2) simp_all
  show ?case using Suc.IH[of "tl s1" "tl s2"] by (simp add: b t Let_def)
qed

lemma strncmp_padded_self:
  "strncmp key (take m (takeWhile (\<lambda>c. c \<noteq> 0) key)
      @ replicate (m - length (take m (takeWhile (\<lambda>c. c \<noteq> 0) key))) 0) m = 0"
proof (induction m arbitrary: key)
  case 0
  show ?case by simp
next
  case (Suc m)
  show ?case
  proof (cases key)
    case Nil
    then show ?thesis by (simp add: byte_at_def)
  next
    case (Cons c rest)
    show ?thesis
    proof (cases "c = 0")
      case True
      then show ?thesis using Cons by (simp add: byte_at_def)
    next
      case False
      then show ?thesis using Cons Suc.IH[of rest] by (simp add: byte_at_def Let_def)
    qed
  qed
qed

lemma strncmp_stored_key:
  assumes "key_len \<le> length kb"
  shows "strncmp key ((strncpy kb key key_len)[key_len + 1 := 0]) key_len = 0"
proof -
  let ?s = "take key_len (takeWhile (\<lambda>c. c \<noteq> 0) key)"
  have "take key_len ((strncpy kb key key_len)[key_len + 1 := 0])
      = take key_len (strncpy kb key key_len)"
    by simp
  also have "\<dots> = ?s @ replicate (key_len - length ?s) 0"
    by (simp add: strncpy_def Let_def)
  finally show ?thesis
    using strncmp_padded_self[of key key_len]
    by (subst strncmp_take) simp
qed

lemma strncmp_eq_0_take:
  assumes "strncmp key buf m = 0" "length key = m" "0 \<notin> set key"
  shows "take m buf = key"
  using assms
proof (induction m arbitrary: key buf)
  case 0
  then show ?case by simp
next
  case (Suc m)
  then obtain c rest where key: "key = c # rest" by (cases key) auto
  have c: "c \<noteq> 0" using Suc.prems(3) key by auto
  have eq: "byte_at buf 0 = c"
  proof (rule ccontr)
    assume "byte_at buf 0 \<noteq> c"
    then have "strncmp key buf (Suc m) = uint c - uint (byte_at buf 0)"
      using key by (auto simp add: byte_at_def Let_def)
    moreover have "uint c \<noteq> uint (byte_at buf 0)"
      using \<open>byte_at buf 0 \<noteq> c\<close> by (simp add: word_uint_eq_iff)
    ultimately show False using Suc.prems(1) by simp
  qed
  then obtain rest' where buf: "buf = c # rest'"
    using c by (cases buf) (auto simp add: byte_at_def)
  have "strncmp rest rest' m = 0"
    using Suc.prems(1) key buf c by (simp add: byte_at_def Let_def)
  then have "take m rest' = rest"
    using Suc.IH[of rest rest'] Suc.prems(2,3) key by simp
  then show ?case using key buf by simp
qed

subsection \<open>A key no entry holds\<close>

lemma fresh_key_exists:
  assumes inv: "table_inv t" and cmp: "cmp t = strncmp"
  shows "\<exists>key. length key = 30 \<and> (\<forall>e\<in>set (values_arr t). \<not> key_equal t key 30 e)"
proof -
  define K :: "byte list set" where "K = {key. set key \<subseteq> {1, 2, 3} \<and> length key = 30}"
  define M where "M = (\<lambda>e. take 30 (k_buf e)) ` set (values_arr t)"
  obtain k where k: "k \<le> 31" "cap t = 2 ^ k" using table_invD(1)[OF inv] by blast
  have "(2::nat) ^ k \<le> 2 ^ 31" using k(1) by (intro power_increasing) simp_all
  then have capb: "cap t \<le> 2 ^ 31" using k(2) by simp
  have "card K = card {1, 2, 3 :: byte} ^ 30"
    unfolding K_def by (rule card_lists_length_eq) simp
  moreover have "card {1, 2, 3 :: byte} = 3" by simp
  ultimately have cK: "card K = 3 ^ 30" by (simp only:)
  have "card M \<le> card (set (values_arr t))" unfolding M_def by (intro card_image_le) simp
  also have "\<dots> \<le> length (values_arr t)" by (rule card_length)
  also have "\<dots> \<le> 2 ^ 31" using table_invD(3)[OF inv] capb by simp
  also have "\<dots> < (3::nat) ^ 30" by simp
  finally have lt: "card M < card K" using cK by simp
  have "finite M" unfolding M_def by simp
  then have "\<not> K \<subseteq> M" using lt card_mono[of M K] by auto
  then obtain key where key: "key \<in> K" "key \<notin> M" by blast
  have len: "length key = 30" and nz: "0 \<notin> set key" using key(1) unfolding K_def by auto
  have "\<not> key_equal t key 30 e" if "e \<in> set (values_arr t)" for e
  proof
    assume "key_equal t key 30 e"
    then have "strncmp key (k_buf e) 30 = 0" using cmp by (simp add: key_equal_def)
    then have "take 30 (k_buf e) = key" using len nz by (rule strncmp_eq_0_take)
    then have "key \<in> M" unfolding M_def using that by force
    then show False using key(2) by contradiction
  qed
  then show ?thesis using len by blast
qed


subsection \<open>Puts that insert\<close>

lemma store_key_ok:
  assumes "key_len + 1 < HT_MAX_KEY_LEN"
  shows "store_key kb key key_len = Inr ((strncpy kb key key_len)[key_len + 1 := 0])"
proof -
  have "filter (\<lambda>i. \<not> i < HT_MAX_KEY_LEN) (key_write_indices key_len) = []"
    using assms by (simp add: key_write_indices_def)
  then show ?thesis by (simp add: store_key_def)
qed

lemma put_insert_ok:
  assumes "key_len + 1 < HT_MAX_KEY_LEN"
  shows "\<exists>t'. put_insert t j d key key_len val hc = Inr (val, t')
    \<and> n_elems t' = n_elems t + 1 \<and> cap t' = cap t \<and> expand t' = expand t
    \<and> cmp t' = cmp t \<and> hashcode_fn t' = hashcode_fn t \<and> load_factor t' = load_factor t
    \<and> ins_loc t' \<le> ins_loc t + 1"
  by (simp add: put_insert_def Let_def store_key_ok[OF assms])

lemma put_probe_no_fault:
  assumes "key_len + 1 < HT_MAX_KEY_LEN"
  shows "\<exists>r t'. put_probe t key key_len val hc pl = Inr (r, t') \<and> cap t' = cap t"
proof (rule put_probe_cases)
  show "\<exists>r t'. Inr (NULL, t) = Inr (r, t') \<and> cap t' = cap t" by simp
next
  fix d
  show "\<exists>r t'. Inr (val, put_update t (index t ! probe_loc t hc d) val) = Inr (r, t')
      \<and> cap t' = cap t"
    by (simp add: put_update_def)
next
  fix d
  show "\<exists>r t'. put_insert t (probe_loc t hc d) d key key_len val hc = Inr (r, t')
      \<and> cap t' = cap t"
    using put_insert_ok[OF assms, of t "probe_loc t hc d" d key val hc] by blast
qed

lemma free_probe_exists:
  assumes inv: "table_inv t" and room: "n_elems t < cap t"
  shows "\<exists>d\<le>cap t. state (index t ! probe_loc t hc d) \<noteq> HT_BUCKET_OCCUPIED"
proof -
  obtain k where k: "k \<le> 31" "cap t = 2 ^ k" using table_invD(1)[OF inv] by blast
  obtain j where j: "j < cap t" "state (index t ! j) \<noteq> HT_BUCKET_OCCUPIED"
    using free_bucket_exists[of "index t" "cap t"] table_invD(2,4)[OF inv] room
    by (auto simp add: occupied_count_def)
  obtain d where "d < cap t" "probe_loc t hc d = j"
    using probe_loc_cover[of t k j hc] k j(1) by auto
  then show ?thesis using j(2) by (intro exI[of _ d]) simp
qed

lemma put_fresh_key_inserts:
  assumes inv: "table_inv t" and ne: "\<not> needs_expand t"
    and fresh: "\<forall>e\<in>set (values_arr t). \<not> key_equal t key key_len e"
    and len: "key_len + 1 < HT_MAX_KEY_LEN"
  shows "\<exists>t'. HT_put t (Some key) key_len val index_ok values_ok = Inr (val, t')
    \<and> n_elems t' = n_elems t + 1 \<and> cap t' = cap t \<and> expand t' = expand t
    \<and> cmp t' = cmp t \<and> hashcode_fn t' = hashcode_fn t \<and> load_factor t' = load_factor t
    \<and> ins_loc t' \<le> ins_loc t + 1"
proof -
  let ?hc = "hashcode_fn t key key_len"
  let ?G = "\<lambda>r. \<exists>t'. r = Inr (val, t')
    \<and> n_elems t' = n_elems t + 1 \<and> cap t' = cap t \<and> expand t' = expand t
    \<and> cmp t' = cmp t \<and> hashcode_fn t' = hashcode_fn t \<and> load_factor t' = load_factor t
    \<and> ins_loc t' \<le> ins_loc t + 1"
  have room: "n_elems t < cap t"
    using ne table_invD(2,4)[OF inv] length_filter_le[of "\<lambda>b. state b = HT_BUCKET_OCCUPIED" "index t"]
    by (simp add: needs_expand_def occupied_count_def)
  have "?G (put_probe t key key_len val ?hc 0)"
  proof (rule put_probe_cases)
    assume "\<forall>d. 0 \<le> d \<and> d \<le> cap t \<longrightarrow> stepped_over t key key_len ?hc d"
    then have False using free_probe_exists[OF inv room, of ?hc] by (auto simp add: stepped_over_def)
    then show "?G (Inr (NULL, t))" by (rule FalseE)
  next
    fix d
    let ?b = "index t ! probe_loc t ?hc d"
    assume m: "key_match t key key_len ?hc d"
    have "loc ?b < ins_loc t"
      using used_bucket_loc[OF inv table_inv_probe_loc_less[OF inv]] m
      by (simp add: key_match_def)
    then have "values_arr t ! loc ?b \<in> set (values_arr t)"
      using table_invD(3,6)[OF inv] by simp
    then have False using fresh m by (auto simp add: key_match_def)
    then show "?G (Inr (val, put_update t ?b val))" by (rule FalseE)
  next
    fix d
    show "?G (put_insert t (probe_loc t ?hc d) d key key_len val ?hc)"
      by (rule put_insert_ok[OF len])
  qed
  moreover have "\<not> key_len > HT_MAX_KEY_LEN - 1" using len by linarith
  then have "HT_put t (Some key) key_len val index_ok values_ok
      = put_probe t key key_len val ?hc 0"
    using ne by (simp add: HT_put_def)
  ultimately show ?thesis by simp
qed


subsection \<open>Growing a table of the maximum capacity\<close>

lemma HT_round_up_max: "HT_round_up HT_MAX_CAPACITY = HT_MAX_CAPACITY"
proof -
  have "(1::nat) < 2 ^ 30" "(2::nat) ^ 30 \<le> 2 ^ 32" by simp_all
  then obtain k where k: "HT_round_up (2 ^ 30) = 2 ^ k" "(2::nat) ^ 30 \<le> 2 ^ k"
    "(2::nat) ^ k < 2 * 2 ^ 30"
    using HT_round_up_pow2[of "2 ^ 30"] by blast
  have "30 \<le> k" using k(2) by (rule pow2_leD)
  moreover have "(2::nat) ^ k < 2 ^ 31" using k(3) by simp
  then have "k < 31" by (rule pow2_lessD)
  ultimately have "k = 30" by simp
  then show ?thesis using k(1) by (simp add: HT_MAX_CAPACITY_def)
qed

lemma max_table:
  "\<exists>t. HT_new HT_MAX_CAPACITY True True True = Some t \<and> cap t = HT_MAX_CAPACITY
    \<and> expand t = 805306368 \<and> n_elems t = 0 \<and> ins_loc t = 0 \<and> cmp t = strncmp"
proof -
  have "HT_calc_expansion HT_DEFAULT_LOAD_FACTOR HT_MAX_CAPACITY = 805306368"
    by (simp add: HT_calc_expansion_def HT_DEFAULT_LOAD_FACTOR_def HT_MAX_CAPACITY_def)
  moreover have "\<not> HT_MAX_CAPACITY < HT_DEFAULT_CAPACITY"
    by (simp add: HT_MAX_CAPACITY_def HT_DEFAULT_CAPACITY_def)
  moreover have "\<not> (HT_DEFAULT_LOAD_FACTOR < 1 / 10 \<or> HT_DEFAULT_LOAD_FACTOR > 1)"
    by (simp add: HT_DEFAULT_LOAD_FACTOR_def)
  ultimately show ?thesis
    by (simp add: HT_new_def HT_new_ex_def Let_def HT_round_up_max)
qed

lemma HT_expand_ok:
  assumes "cap t \<le> INT_MAX"
  shows "\<exists>t1. HT_expand t True True = Inr (Some t1)"
  using assms by (simp add: HT_expand_def Let_def)

subsection \<open>Two buckets and their entries\<close>

lemma distinct_map_filter_nth:
  assumes d: "distinct (map f (filter Q xs))" and i: "i < length xs" and j: "j < length xs"
    and ne: "i \<noteq> j" and Qi: "Q (xs ! i)" and Qj: "Q (xs ! j)"
  shows "f (xs ! i) \<noteq> f (xs ! j)"
proof -
  have split: "map f (filter Q xs) = map f (filter Q (take i xs)) @ [f (xs ! i)]
      @ map f (filter Q (drop (Suc i) xs))"
    using filter_split_at[OF i, of Q] Qi by simp
  have "xs ! j \<in> set (take i xs) \<or> xs ! j \<in> set (drop (Suc i) xs)"
  proof (cases "j < i")
    case True
    then have "take i xs ! j = xs ! j" "j < length (take i xs)" using i by simp_all
    then show ?thesis by (metis nth_mem)
  next
    case False
    then have "i < j" using ne by simp
    then have "drop (Suc i) xs ! (j - Suc i) = xs ! j" "j - Suc i < length (drop (Suc i) xs)"
      using j by simp_all
    then show ?thesis by (metis nth_mem)
  qed
  then have "f (xs ! j) \<in> set (map f (filter Q (take i xs)))
      \<or> f (xs ! j) \<in> set (map f (filter Q (drop (Suc i) xs)))"
    using Qj by auto
  then show ?thesis using d unfolding split by auto
qed

lemma entry_update_all:
  fixes e :: HT_ENTRY_T
  shows "e\<lparr>k_buf := a, k_len := b, v_ptr := c\<rparr> = \<lparr>k_buf = a, k_len = b, v_ptr = c\<rparr>"
  by (cases e) simp

lemma probe_loc_cap:
  assumes "cap t' = cap t"
  shows "probe_loc t' hc d = probe_loc t hc d"
  using assms by (simp add: probe_loc_def HT_CALC_LOC_def)

subsection \<open>What does hold of the capacity\<close>

lemma put_probe_cap:
  assumes "put_probe t key key_len val hc pl = Inr (r, t')"
  shows "cap t' = cap t"
proof -
  have "\<forall>r t'. put_probe t key key_len val hc pl = Inr (r, t') \<longrightarrow> cap t' = cap t"
  proof (rule put_probe_cases)
    show "\<forall>r t'. Inr (NULL, t) = Inr (r, t') \<longrightarrow> cap t' = cap t" by simp
  next
    fix d
    show "\<forall>r t'. Inr (val, put_update t (index t ! probe_loc t hc d) val) = Inr (r, t')
        \<longrightarrow> cap t' = cap t"
      by (simp add: put_update_def)
  next
    fix d
    show "\<forall>r t'. put_insert t (probe_loc t hc d) d key key_len val hc = Inr (r, t')
        \<longrightarrow> cap t' = cap t"
      by (auto simp add: put_insert_def Let_def split: sum.splits)
  qed
  then show ?thesis using assms by blast
qed

lemma HT_put_cap:
  assumes inv: "table_inv t"
    and r: "HT_put t key key_len val index_ok values_ok = Inr (r, t')"
  shows "cap t' = cap t \<or> cap t' = 2 * cap t"
proof (cases "\<exists>t1. HT_expand t index_ok values_ok = Inr (Some t1)")
  case True
  then obtain t1 where t1: "HT_expand t index_ok values_ok = Inr (Some t1)" by blast
  have "cap t1 = 2 * cap t" by (rule HT_expand_result(3)[OF inv t1])
  then show ?thesis
    using r t1 put_probe_cap[of t] put_probe_cap[of t1]
    by (auto simp add: HT_put_def split: option.splits if_splits)
next
  case False
  then show ?thesis
    using r put_probe_cap[of t]
    by (auto simp add: HT_put_def split: option.splits if_splits sum.splits)
qed

lemma HT_remove_cap: "cap (snd (HT_remove t key key_len)) = cap t"
proof -
  have "cap (snd (remove_probe t kb key_len hc 0)) = cap t" for kb hc
    by (rule remove_probe_cases) (simp_all add: remove_at_def Let_def)
  then show ?thesis by (simp add: HT_remove_def split: option.splits)
qed

lemma cap_never_decreases:
  assumes "reachable t" "apply_op t x = Inr t'"
  shows "cap t \<le> cap t'"
proof (cases x)
  case (Put key key_len val index_ok values_ok)
  then obtain r where "HT_put t key key_len val index_ok values_ok = Inr (r, t')"
    using assms(2) by (auto split: sum.splits)
  then show ?thesis using HT_put_cap[OF reachable_inv[OF assms(1)]] by fastforce
next
  case (Remove key key_len)
  then show ?thesis using assms(2) HT_remove_cap[of t key key_len] by auto
qed

lemma cap_power_of_two:
  assumes "reachable t"
  shows "\<exists>k. cap t = 2 ^ k \<and> HT_DEFAULT_CAPACITY \<le> cap t \<and> cap t \<le> 2 * HT_MAX_CAPACITY"
proof -
  obtain k where k: "4 \<le> k" "k \<le> 31" "cap t = 2 ^ k"
    using table_invD(1)[OF reachable_inv[OF assms]] by blast
  have "(2::nat) ^ 4 \<le> 2 ^ k" using k(1) by (intro power_increasing) simp_all
  moreover have "(2::nat) ^ k \<le> 2 ^ 31" using k(2) by (intro power_increasing) simp_all
  ultimately show ?thesis
    using k(3) by (auto simp add: HT_DEFAULT_CAPACITY_def HT_MAX_CAPACITY_def)
qed

subsection \<open>Occupied buckets are found from their homes\<close>

lemma probe_inv_cong:
  assumes "index t' = index t" "cap t' = cap t" "max_probe t' = max_probe t"
  shows "probe_inv t' = probe_inv t"
  using assms by (simp add: probe_inv_def chained_def probe_loc_cap[OF assms(2)])

lemma chained_update:
  assumes len: "length (index t) = cap t" and rng: "\<And>hc d. probe_loc t hc d < cap t"
    and cap: "cap t' = cap t"
    and ix: "index t' = (index t)[j := nb]" and nb: "state nb \<noteq> HT_EMPTY_BUCKET"
    and ch: "chained t hc p d"
  shows "chained t' hc p d"
proof -
  have pl: "probe_loc t' hc d = probe_loc t hc d" for d by (rule probe_loc_cap[OF cap])
  have "state (index t' ! probe_loc t hc d') \<noteq> HT_EMPTY_BUCKET" if "d' < d" for d'
  proof -
    have l: "probe_loc t hc d' < length (index t)"
      using rng len by simp
    have o: "state (index t ! probe_loc t hc d') \<noteq> HT_EMPTY_BUCKET"
      using ch that by (simp add: chained_def)
    show ?thesis
      using l o nb by (cases "probe_loc t hc d' = j") (simp_all add: ix)
  qed
  then show ?thesis using ch by (simp add: chained_def pl)
qed

lemma probe_inv_update:
  assumes len: "length (index t) = cap t" and rng: "\<And>hc d. probe_loc t hc d < cap t"
    and pinv: "probe_inv t" and cap: "cap t' = cap t"
    and ix: "index t' = (index t)[j := nb]" and nb: "state nb \<noteq> HT_EMPTY_BUCKET"
    and mp: "max_probe t \<le> max_probe t'" and j: "j < cap t"
    and new: "state nb = HT_BUCKET_OCCUPIED \<Longrightarrow> \<exists>d\<le>max_probe t'. chained t' (hashcode nb) j d"
  shows "probe_inv t'"
  unfolding probe_inv_def
proof (intro allI impI)
  fix p
  assume p: "p < cap t'" and occ: "state (index t' ! p) = HT_BUCKET_OCCUPIED"
  have jl: "j < length (index t)" using j len by simp
  show "\<exists>d\<le>max_probe t'. chained t' (hashcode (index t' ! p)) p d"
  proof (cases "p = j")
    case True
    then have "index t' ! p = nb" using jl by (simp add: ix)
    then show ?thesis using new occ True by simp
  next
    case False
    then have same: "index t' ! p = index t ! p" by (simp add: ix)
    then obtain d where d: "d \<le> max_probe t" "chained t (hashcode (index t ! p)) p d"
      using pinv p occ cap by (auto simp add: probe_inv_def)
    have "chained t' (hashcode (index t ! p)) p d"
      by (rule chained_update[OF len rng cap ix nb d(2)])
    then show ?thesis using d(1) mp same by (intro exI[of _ d]) simp
  qed
qed

lemma probe_inv_put_insert:
  assumes inv: "table_inv t" and pinv: "probe_inv t"
    and skipped: "\<forall>d'<d. state (index t ! probe_loc t hc d') = HT_BUCKET_OCCUPIED"
    and r: "put_insert t (probe_loc t hc d) d key key_len val hc = Inr (r, t')"
  shows "probe_inv t'"
proof -
  let ?j = "probe_loc t hc d"
  let ?b = "index t ! ?j"
  let ?il = "if state ?b = HT_EMPTY_BUCKET then ins_loc t else loc ?b"
  let ?nb = "\<lparr>hashcode = hc, loc = ?il, state = HT_BUCKET_OCCUPIED\<rparr>"
  have f: "index t' = (index t)[?j := ?nb]" "cap t' = cap t"
    "max_probe t' = (if d > max_probe t then d else max_probe t)"
    using r by (auto simp add: put_insert_def Let_def split: sum.splits if_splits)
  note len = table_invD(2)[OF inv]
  note rng = table_inv_probe_loc_less[OF inv]
  have j: "?j < cap t" by (rule rng)
  show ?thesis
  proof (rule probe_inv_update[OF len rng pinv f(2) f(1) _ _ j])
    show "state ?nb \<noteq> HT_EMPTY_BUCKET" by simp
    show "max_probe t \<le> max_probe t'" by (simp add: f(3))
    have c: "chained t hc ?j d" using skipped by (simp add: chained_def)
    have "chained t' hc ?j d" by (rule chained_update[OF len rng f(2) f(1) _ c]) simp
    moreover have "d \<le> max_probe t'" by (simp add: f(3))
    ultimately show "\<exists>d\<le>max_probe t'. chained t' (hashcode ?nb) ?j d" by auto
  qed
qed

lemma probe_inv_remove_at:
  assumes inv: "table_inv t" and pinv: "probe_inv t" and j: "j < cap t"
  shows "probe_inv (snd (remove_at t j))"
proof -
  let ?nb = "(index t ! j)\<lparr>state := HT_DELETED_BUCKET, hashcode := 0\<rparr>"
  show ?thesis
  proof (rule probe_inv_update[OF table_invD(2)[OF inv] table_inv_probe_loc_less[OF inv]
        pinv _ _ _ _ j])
    show "cap (snd (remove_at t j)) = cap t" by (simp add: remove_at_def Let_def)
    show "index (snd (remove_at t j)) = (index t)[j := ?nb]" by (simp add: remove_at_def Let_def)
    show "state ?nb \<noteq> HT_EMPTY_BUCKET" by simp
    show "max_probe t \<le> max_probe (snd (remove_at t j))" by (simp add: remove_at_def Let_def)
    show "\<exists>d\<le>max_probe (snd (remove_at t j)). chained (snd (remove_at t j)) (hashcode ?nb) j d"
      if "state ?nb = HT_BUCKET_OCCUPIED"
      using that by simp
  qed
qed

lemma probe_inv_put_probe:
  assumes inv: "table_inv t" and pinv: "probe_inv t"
    and r: "put_probe t key key_len val hc 0 = Inr (r, t')"
  shows "probe_inv t'"
proof -
  have "\<forall>r t'. put_probe t key key_len val hc 0 = Inr (r, t') \<longrightarrow> probe_inv t'"
  proof (rule put_probe_cases)
    show "\<forall>r t'. Inr (NULL, t) = Inr (r, t') \<longrightarrow> probe_inv t'" using pinv by simp
  next
    fix d
    have "probe_inv (put_update t (index t ! probe_loc t hc d) val) = probe_inv t"
      by (rule probe_inv_cong) (simp_all add: put_update_def)
    then show "\<forall>r t'. Inr (val, put_update t (index t ! probe_loc t hc d) val) = Inr (r, t')
        \<longrightarrow> probe_inv t'"
      using pinv by simp
  next
    fix d
    assume "\<forall>d'. 0 \<le> d' \<and> d' < d \<longrightarrow> stepped_over t key key_len hc d'"
    then have "\<forall>d'<d. state (index t ! probe_loc t hc d') = HT_BUCKET_OCCUPIED"
      by (simp add: stepped_over_def)
    then show "\<forall>r t'. put_insert t (probe_loc t hc d) d key key_len val hc = Inr (r, t')
        \<longrightarrow> probe_inv t'"
      using probe_inv_put_insert[OF inv pinv] by blast
  qed
  then show ?thesis using r by blast
qed

lemma probe_inv_remove:
  assumes inv: "table_inv t" and pinv: "probe_inv t"
  shows "probe_inv (snd (HT_remove t key key_len))"
proof -
  have "probe_inv (snd (remove_probe t kb key_len hc 0))" for kb hc
  proof (rule remove_probe_cases)
    show "probe_inv (snd (NULL, t))" using pinv by simp
    show "probe_inv (snd (remove_at t (probe_loc t hc d)))" for d
      by (rule probe_inv_remove_at[OF inv pinv table_inv_probe_loc_less[OF inv]])
  qed
  then show ?thesis using pinv by (simp add: HT_remove_def split: option.splits)
qed


lemma probe_inv_expand_probe:
  assumes rb: "rebuilding k t" and pinv: "probe_inv t" and occ: "state b = HT_BUCKET_OCCUPIED"
  shows "probe_inv (expand_probe t b 0)"
proof -
  have len: "length (index t) = cap t" using rb by (simp add: rebuilding_def)
  have rng: "probe_loc t hc d < cap t" for hc d
    using probe_loc_less[of t k hc d] rb by (simp add: rebuilding_def)
  have ne: "state b \<noteq> HT_EMPTY_BUCKET" using occ by simp
  show ?thesis
  proof (rule expand_probe_cases)
    assume "\<forall>d. 0 \<le> d \<and> d \<le> cap t
        \<longrightarrow> state (index t ! probe_loc t (hashcode b) d) = HT_BUCKET_OCCUPIED"
    show "probe_inv t" by (rule pinv)
  next
    fix d
    let ?j = "probe_loc t (hashcode b) d"
    let ?t' = "t\<lparr>index := (index t)[?j := b],
               max_probe := (if d > max_probe t then d else max_probe t)\<rparr>"
    assume skipped: "\<forall>d'. 0 \<le> d' \<and> d' < d
            \<longrightarrow> state (index t ! probe_loc t (hashcode b) d') = HT_BUCKET_OCCUPIED"
    show "probe_inv ?t'"
    proof (rule probe_inv_update[OF len rng pinv _ _ ne _ rng])
      show "cap ?t' = cap t" by simp
      show "index ?t' = (index t)[?j := b]" by simp
      show "max_probe t \<le> max_probe ?t'" by simp
      have c: "chained t (hashcode b) ?j d" using skipped by (simp add: chained_def)
      have "chained ?t' (hashcode b) ?j d"
        by (rule chained_update[OF len rng _ _ ne c]) simp_all
      moreover have "d \<le> max_probe ?t'" by simp
      ultimately show "\<exists>d\<le>max_probe ?t'. chained ?t' (hashcode b) ?j d" by blast
    qed
  qed
qed

lemma probe_inv_copy_index:
  assumes "rebuilding k t" "probe_inv t"
    and "occupied_count t + length (filter (\<lambda>b. state b = HT_BUCKET_OCCUPIED) bs) \<le> cap t"
  shows "probe_inv (copy_index bs t)"
  using assms
proof (induction bs arbitrary: t)
  case Nil
  then show ?case by simp
next
  case (Cons b bs)
  show ?case
  proof (cases "state b = HT_BUCKET_OCCUPIED")
    case False
    then show ?thesis using Cons.IH[of t] Cons.prems by simp
  next
    case True
    let ?t1 = "expand_probe t b 0"
    have room: "occupied_count t < cap t" using Cons.prems(3) True by simp
    note A = expand_probe_adds[OF Cons.prems(1) True room]
    obtain ix mp where t1: "?t1 = t\<lparr>index := ix, max_probe := mp\<rparr>" using A by blast
    have c1: "cap ?t1 = cap t" by (subst t1) simp
    have m: "mset (filter (\<lambda>b. state b = HT_BUCKET_OCCUPIED) (index ?t1))
        = add_mset b (mset (filter (\<lambda>b. state b = HT_BUCKET_OCCUPIED) (index t)))"
      using A by blast
    have "occupied_count ?t1
        = size (mset (filter (\<lambda>b. state b = HT_BUCKET_OCCUPIED) (index ?t1)))"
      by (simp only: occupied_count_def size_mset)
    also have "\<dots> = size (add_mset b (mset (filter (\<lambda>b. state b = HT_BUCKET_OCCUPIED) (index t))))"
      by (simp only: m)
    also have "\<dots> = Suc (occupied_count t)"
      by (simp only: occupied_count_def size_add_mset size_mset)
    finally have o1: "occupied_count ?t1 = Suc (occupied_count t)" .
    have "occupied_count ?t1 + length (filter (\<lambda>b. state b = HT_BUCKET_OCCUPIED) bs) \<le> cap ?t1"
      using Cons.prems(3) True c1 o1 by simp
    then have "probe_inv (copy_index bs ?t1)"
      using Cons.IH[OF conjunct1[OF A] probe_inv_expand_probe[OF Cons.prems(1,2) True]] by blast
    then show ?thesis using True by simp
  qed
qed

lemma probe_inv_expand:
  assumes inv: "table_inv t" and ex: "HT_expand t index_ok values_ok = Inr (Some t')"
  shows "probe_inv t'"
proof -
  obtain k where k: "4 \<le> k" "k \<le> 31" "cap t = 2 ^ k" using table_invD(1)[OF inv] by blast
  note D = table_invD(2-9)[OF inv]
  have small: "cap t \<le> INT_MAX" and ok: "index_ok" "values_ok"
    using ex by (auto simp add: HT_expand_def Let_def split: if_splits)
  have c': "HT_round_up (cap t * 2) = 2 ^ Suc k"
    using HT_round_up_double[OF k(2)] k(3) by simp
  define t0 where "t0 = t\<lparr>index := replicate (2 ^ Suc k) empty_bucket,
      values_arr := values_arr t @ replicate (2 ^ Suc k - cap t) empty_entry,
      cap := 2 ^ Suc k, expand := HT_calc_expansion (load_factor t) (2 ^ Suc k),
      max_probe := 0\<rparr>"
  have t': "t' = copy_index (index t) t0"
    using ex small ok D(1,2) by (simp add: HT_expand_def Let_def c' t0_def)
  have rb0: "rebuilding (Suc k) t0"
    using k(2) by (simp add: rebuilding_def t0_def list_all_iff empty_bucket_def)
  have oc0: "occupied_count t0 = 0"
    by (simp add: occupied_count_def t0_def empty_bucket_def)
  have "length (filter (\<lambda>b. state b = HT_BUCKET_OCCUPIED) (index t)) \<le> length (index t)"
    by (rule length_filter_le)
  then have room: "occupied_count t0
      + length (filter (\<lambda>b. state b = HT_BUCKET_OCCUPIED) (index t)) \<le> cap t0"
    using oc0 D(1) k(3) by (simp add: t0_def)
  have p0: "probe_inv t0"
    by (simp add: probe_inv_def t0_def empty_bucket_def)
  show ?thesis unfolding t' by (rule probe_inv_copy_index[OF rb0 p0 room])
qed

lemma probe_inv_put:
  assumes inv: "table_inv t" and pinv: "probe_inv t"
    and r: "HT_put t key key_len val index_ok values_ok = Inr (r, t')"
  shows "probe_inv t'"
proof (cases "\<exists>t1. HT_expand t index_ok values_ok = Inr (Some t1)")
  case True
  then obtain t1 where t1: "HT_expand t index_ok values_ok = Inr (Some t1)" by blast
  note i1 = HT_expand_result(1)[OF inv t1] and p1 = probe_inv_expand[OF inv t1]
  show ?thesis
    using r t1 pinv probe_inv_put_probe[OF inv pinv] probe_inv_put_probe[OF i1 p1]
    by (auto simp add: HT_put_def split: option.splits if_splits)
next
  case False
  then show ?thesis
    using r pinv probe_inv_put_probe[OF inv pinv]
    by (auto simp add: HT_put_def split: option.splits if_splits sum.splits)
qed

lemma reachable_probe_inv:
  assumes "reachable t"
  shows "probe_inv t"
  using assms
proof (induction rule: reachable.induct)
  case (construct requested_capacity lf hashcode' cmp' index_ok values_ok table_ok t)
  then obtain k ex lf1 where "t = \<lparr>index = replicate (2 ^ k) empty_bucket,
         values_arr = replicate (2 ^ k) empty_entry, n_elems = 0, cap = 2 ^ k, expand = ex,
         max_probe = 0, ins_loc = 0, load_factor = lf1, cmp = cmp', hashcode_fn = hashcode'\<rparr>"
    using HT_new_ex_shape by blast
  then show ?case by (simp add: probe_inv_def empty_bucket_def)
next
  case (step t x t')
  note inv = reachable_inv[OF step.hyps(1)]
  show ?case
  proof (cases x)
    case (Put key key_len val index_ok values_ok)
    then obtain r where "HT_put t key key_len val index_ok values_ok = Inr (r, t')"
      using step.hyps(2) by (auto split: sum.splits)
    then show ?thesis using probe_inv_put[OF inv step.IH] by blast
  next
    case (Remove key key_len)
    then show ?thesis
      using step.hyps(2) probe_inv_remove[OF inv step.IH, of key key_len] by auto
  qed
qed

lemma probe_loc_period:
  assumes "cap t = 2 ^ k" "k \<le> 64"
  shows "probe_loc t hc (d + cap t) = probe_loc t hc d"
  by (simp add: probe_loc_pow2[OF assms] assms(1) add.assoc[symmetric])

text \<open>
  A tombstone on a probe path: the first one stands within one round of the path, and when
  a bucket further along holds the key and none before the tombstone does, no empty bucket
  stands before the tombstone either.
\<close>

lemma first_tombstone:
  assumes inv: "table_inv t"
    and tomb: "state (index t ! probe_loc t hc d1) = HT_DELETED_BUCKET"
  shows "\<exists>d0\<le>d1. d0 < cap t \<and> state (index t ! probe_loc t hc d0) = HT_DELETED_BUCKET
    \<and> (\<forall>d<d0. state (index t ! probe_loc t hc d) \<noteq> HT_DELETED_BUCKET)"
proof -
  let ?P = "\<lambda>d. state (index t ! probe_loc t hc d) = HT_DELETED_BUCKET"
  define d0 where "d0 = (LEAST d. ?P d)"
  have P0: "?P d0" unfolding d0_def using tomb by (rule LeastI)
  have le: "d0 \<le> d1" unfolding d0_def using tomb by (rule Least_le)
  have least: "\<not> ?P d" if "d < d0" for d
    using that unfolding d0_def by (rule not_less_Least)
  have "d0 < cap t"
  proof (rule ccontr)
    assume "\<not> d0 < cap t"
    then have c: "cap t \<le> d0" by simp
    obtain k where k: "4 \<le> k" "k \<le> 31" "cap t = 2 ^ k" using table_invD(1)[OF inv] by blast
    have "probe_loc t hc (d0 - cap t + cap t) = probe_loc t hc (d0 - cap t)"
      using k by (intro probe_loc_period[of t k]) simp_all
    then have "probe_loc t hc (d0 - cap t) = probe_loc t hc d0" using c by simp
    then have "?P (d0 - cap t)" using P0 by simp
    moreover have "0 < cap t" using k(3) by simp
    then have "d0 - cap t < d0" using c by linarith
    ultimately show False using least by blast
  qed
  then show ?thesis using P0 le least by blast
qed

lemma no_empty_up_to_tombstone:
  assumes inv: "table_inv t" and pinv: "probe_inv t"
    and stored: "key_match t key key_len hc d2"
    and tomb: "state (index t ! probe_loc t hc d1) = HT_DELETED_BUCKET"
    and nomatch: "\<forall>d<d1. \<not> key_match t key key_len hc d"
  shows "\<forall>d\<le>d1. state (index t ! probe_loc t hc d) \<noteq> HT_EMPTY_BUCKET"
proof -
  let ?p = "probe_loc t hc d2"
  have "?p < cap t" by (rule table_inv_probe_loc_less[OF inv])
  moreover have o: "state (index t ! ?p) = HT_BUCKET_OCCUPIED"
    and h: "hashcode (index t ! ?p) = hc"
    using stored by (simp_all add: key_match_def)
  ultimately obtain d where d: "chained t hc ?p d"
    using pinv unfolding probe_inv_def by metis
  have pd: "probe_loc t hc d = ?p" using d by (simp add: chained_def)
  have "\<not> d \<le> d1"
  proof
    assume le: "d \<le> d1"
    have m: "key_match t key key_len hc d" using stored pd by (simp add: key_match_def)
    show False
    proof (cases "d = d1")
      case True
      then show False using tomb o pd by simp
    next
      case False
      then have "d < d1" using le by simp
      then show False using nomatch m by blast
    qed
  qed
  then show ?thesis using d tomb by (auto simp add: chained_def)
qed

text \<open>
  A put that needs no resize and whose loop steps over every bucket before a
  tombstone takes the tombstone, whatever lies further along the path.
\<close>

lemma put_probe_takes_tombstone:
  assumes inv: "table_inv t" and ne: "\<not> needs_expand t"
    and hc: "hc = hashcode_fn t key key_len"
    and d1: "d1 \<le> cap t"
    and before: "\<forall>d<d1. stepped_over t key key_len hc d"
    and tomb: "state (index t ! probe_loc t hc d1) = HT_DELETED_BUCKET"
    and stored: "key_match t key key_len hc d2"
  shows "\<exists>t'. HT_put t (Some key) key_len val index_ok values_ok = Inr (val, t')
    \<and> n_elems t' = n_elems t + 1
    \<and> index t' = (index t)[probe_loc t hc d1 :=
          \<lparr>hashcode = hc, loc = loc (index t ! probe_loc t hc d1), state = HT_BUCKET_OCCUPIED\<rparr>]
    \<and> values_arr t' = (values_arr t)[loc (index t ! probe_loc t hc d1) :=
          \<lparr>k_buf = (strncpy (k_buf (values_arr t ! loc (index t ! probe_loc t hc d1)))
               key key_len)[key_len + 1 := 0],
           k_len = key_len, v_ptr = val\<rparr>]
    \<and> probe_loc t hc d1 \<noteq> probe_loc t hc d2
    \<and> loc (index t ! probe_loc t hc d1) \<noteq> loc (index t ! probe_loc t hc d2)
    \<and> state (index t' ! probe_loc t' hc d1) = HT_BUCKET_OCCUPIED
    \<and> hashcode (index t' ! probe_loc t' hc d1) = hc
    \<and> index t' ! probe_loc t' hc d2 = index t ! probe_loc t hc d2
    \<and> values_arr t' ! loc (index t ! probe_loc t hc d2)
        = values_arr t ! loc (index t ! probe_loc t hc d2)
    \<and> key_match t' key key_len hc d2
    \<and> (cmp t = strncmp \<longrightarrow> key_match t' key key_len hc d1)"
proof -
  note D = table_invD(2-9)[OF inv]
  let ?p1 = "probe_loc t hc d1" and ?p2 = "probe_loc t hc d2"
  let ?b1 = "index t ! ?p1" and ?b2 = "index t ! ?p2"
  let ?e1 = "values_arr t ! loc ?b1" and ?e2 = "values_arr t ! loc ?b2"
  have p1: "?p1 < cap t" and p2: "?p2 < cap t" by (rule table_inv_probe_loc_less[OF inv])+
  have s2: "state ?b2 = HT_BUCKET_OCCUPIED" and h2: "hashcode ?b2 = hc"
    and k2: "key_equal t key key_len ?e2"
    using stored by (simp_all add: key_match_def)
  have pne: "?p1 \<noteq> ?p2" using tomb s2 by auto
  have l1: "loc ?b1 < ins_loc t" using used_bucket_loc[OF inv p1] tomb by simp
  have l2: "loc ?b2 < ins_loc t" using used_bucket_loc[OF inv p2] s2 by simp
  have lne: "loc ?b1 \<noteq> loc ?b2"
    using distinct_map_filter_nth[of loc "\<lambda>b. state b \<noteq> HT_EMPTY_BUCKET" "index t" ?p1 ?p2]
      D(7) D(1) p1 p2 pne tomb s2 by (simp add: used_buckets_def)
  have in1: "loc ?b1 < length (values_arr t)" and in2: "loc ?b2 < length (values_arr t)"
    using l1 l2 D(2,5) by simp_all
  have "k_len ?e2 + 1 < HT_MAX_KEY_LEN" using D(8) in2 by (simp add: list_all_length)
  then have len: "key_len + 1 < HT_MAX_KEY_LEN" using k2 by (simp add: key_equal_def)
  have kb1: "length (k_buf ?e1) = HT_MAX_KEY_LEN" using D(8) in1 by (simp add: list_all_length)
  define t' where "t' = t\<lparr>values_arr := (values_arr t)[loc ?b1 :=
          ?e1\<lparr>k_buf := (strncpy (k_buf ?e1) key key_len)[key_len + 1 := 0],
              k_len := key_len, v_ptr := val\<rparr>],
      index := (index t)[?p1 := \<lparr>hashcode = hc, loc = loc ?b1, state = HT_BUCKET_OCCUPIED\<rparr>],
      max_probe := (if d1 > max_probe t then d1 else max_probe t),
      n_elems := n_elems t + 1\<rparr>"
  have ins: "put_insert t ?p1 d1 key key_len val hc = Inr (val, t')"
    using tomb by (simp add: put_insert_def Let_def store_key_ok[OF len] t'_def)
  have "put_probe t key key_len val hc 0 = put_insert t ?p1 d1 key key_len val hc"
  proof (rule put_probe_cases)
    assume "\<forall>d. 0 \<le> d \<and> d \<le> cap t \<longrightarrow> stepped_over t key key_len hc d"
    then have "stepped_over t key key_len hc d1" using d1 by simp
    then have False using tomb by (simp add: stepped_over_def)
    then show "Inr (NULL, t) = put_insert t ?p1 d1 key key_len val hc" by (rule FalseE)
  next
    fix d
    assume a: "\<forall>d'. 0 \<le> d' \<and> d' < d \<longrightarrow> stepped_over t key key_len hc d'"
      and m: "key_match t key key_len hc d"
    have False
    proof (cases d d1 rule: linorder_cases)
      case less
      then show False using before m by (auto simp add: stepped_over_def)
    next
      case equal
      then show False using tomb m by (simp add: key_match_def)
    next
      case greater
      then show False using a tomb by (auto simp add: stepped_over_def)
    qed
    then show "Inr (val, put_update t (index t ! probe_loc t hc d) val)
        = put_insert t ?p1 d1 key key_len val hc" by (rule FalseE)
  next
    fix d
    assume a: "\<forall>d'. 0 \<le> d' \<and> d' < d \<longrightarrow> stepped_over t key key_len hc d'"
      and f: "state (index t ! probe_loc t hc d) \<noteq> HT_BUCKET_OCCUPIED"
    have "d = d1"
    proof (cases d d1 rule: linorder_cases)
      case less
      then show ?thesis using before f by (auto simp add: stepped_over_def)
    next
      case equal
      then show ?thesis .
    next
      case greater
      then show ?thesis using a tomb by (auto simp add: stepped_over_def)
    qed
    then show "put_insert t (probe_loc t hc d) d key key_len val hc
        = put_insert t ?p1 d1 key key_len val hc" by simp
  qed
  moreover have "\<not> key_len > HT_MAX_KEY_LEN - 1" using len by linarith
  ultimately have put: "HT_put t (Some key) key_len val index_ok values_ok = Inr (val, t')"
    using ne ins hc by (simp add: HT_put_def)
  have pl: "probe_loc t' hc d = probe_loc t hc d" for d
    by (rule probe_loc_cap) (simp add: t'_def)
  have i1: "index t' ! ?p1 = \<lparr>hashcode = hc, loc = loc ?b1, state = HT_BUCKET_OCCUPIED\<rparr>"
    using p1 D(1) by (simp add: t'_def)
  have i2: "index t' ! ?p2 = ?b2" using pne by (simp add: t'_def)
  have v1: "values_arr t' ! loc ?b1 = \<lparr>k_buf = (strncpy (k_buf ?e1) key key_len)[key_len + 1 := 0],
           k_len = key_len, v_ptr = val\<rparr>"
    using in1 by (simp add: t'_def entry_update_all)
  have v2: "values_arr t' ! loc ?b2 = ?e2" using lne by (simp add: t'_def)
  have cm: "cmp t' = cmp t" by (simp add: t'_def)
  have m2: "key_match t' key key_len hc d2"
    using s2 h2 k2 by (simp add: key_match_def pl i2 v2 key_equal_def cm)
  have m1: "key_match t' key key_len hc d1" if "cmp t = strncmp"
  proof -
    have "key_len \<le> length (k_buf ?e1)" using kb1 len by simp
    then have "strncmp key ((strncpy (k_buf ?e1) key key_len)[key_len + 1 := 0]) key_len = 0"
      by (rule strncmp_stored_key)
    then show ?thesis
      using that by (simp add: key_match_def pl i1 v1 key_equal_def cm)
  qed
  have vs: "values_arr t' = (values_arr t)[loc ?b1 :=
          \<lparr>k_buf = (strncpy (k_buf ?e1) key key_len)[key_len + 1 := 0],
           k_len = key_len, v_ptr = val\<rparr>]"
    by (simp add: t'_def entry_update_all)
  have ix: "index t' = (index t)[?p1 :=
          \<lparr>hashcode = hc, loc = loc ?b1, state = HT_BUCKET_OCCUPIED\<rparr>]"
    by (simp add: t'_def)
  have n': "n_elems t' = n_elems t + 1" by (simp add: t'_def)
  show ?thesis
    using put n' ix vs pne lne i1 i2 v2 m2 m1 by (intro exI[of _ t']) (simp add: pl)
qed

subsection \<open>What the lookups return\<close>

lemma found_at_step:
  assumes "\<not> key_match t key key_len hc pl"
    and "state (index t ! probe_loc t hc pl) \<noteq> HT_EMPTY_BUCKET"
  shows "found_at t key key_len hc pl d \<longleftrightarrow> found_at t key key_len hc (pl + 1) d"
proof
  assume f: "found_at t key key_len hc pl d"
  then have "d \<noteq> pl" using assms(1) by (auto simp add: found_at_def)
  then show "found_at t key key_len hc (pl + 1) d" using f by (auto simp add: found_at_def)
next
  assume f: "found_at t key key_len hc (pl + 1) d"
  have "state (index t ! probe_loc t hc d') \<noteq> HT_EMPTY_BUCKET" if "pl \<le> d'" "d' < d" for d'
    using that f assms(2) by (cases "d' = pl") (auto simp add: found_at_def)
  then show "found_at t key key_len hc pl d" using f by (auto simp add: found_at_def)
qed

lemma found_at_stop:
  assumes "\<not> key_match t key key_len hc pl"
    and "state (index t ! probe_loc t hc pl) = HT_EMPTY_BUCKET"
  shows "\<not> found_at t key key_len hc pl d"
proof
  assume f: "found_at t key key_len hc pl d"
  then have "d \<noteq> pl" using assms(1) by (auto simp add: found_at_def)
  then have "pl \<le> pl \<and> pl < d" using f by (simp add: found_at_def)
  then show False using f assms(2) unfolding found_at_def by blast
qed

lemma get_probe_cases:
  assumes "(\<forall>d. \<not> found_at t key key_len hc pl d) \<Longrightarrow> P NULL"
    and "\<And>d. pl \<le> d \<Longrightarrow> d \<le> max_probe t \<Longrightarrow> key_match t key key_len hc d
      \<Longrightarrow> P (v_ptr (values_arr t ! loc (index t ! probe_loc t hc d)))"
  shows "P (get_probe t key key_len hc pl)"
  using assms
proof (induction "max_probe t + 1 - pl" arbitrary: pl)
  case 0
  then have n: "\<not> pl \<le> max_probe t" by simp
  then have "\<forall>d. \<not> found_at t key key_len hc pl d" by (auto simp add: found_at_def)
  then have "P NULL" by (rule "0.prems"(1))
  then show ?case using n by (simp add: get_probe.simps[of _ _ _ _ pl])
next
  case (Suc m)
  then have le: "pl \<le> max_probe t" by simp
  show ?case
  proof (cases "key_match t key key_len hc pl")
    case True
    then have "get_probe t key key_len hc pl
        = v_ptr (values_arr t ! loc (index t ! probe_loc t hc pl))"
      using le by (simp add: get_probe.simps[of _ _ _ _ pl] key_match_def Let_def)
    then show ?thesis using Suc.prems(2)[OF _ le True] by simp
  next
    case nm: False
    show ?thesis
    proof (cases "state (index t ! probe_loc t hc pl) = HT_EMPTY_BUCKET")
      case True
      then have "get_probe t key key_len hc pl = NULL"
        using le by (simp add: get_probe.simps[of _ _ _ _ pl] Let_def)
      moreover have "P NULL" using found_at_stop[OF nm True] by (intro Suc.prems(1)) simp
      ultimately show ?thesis by simp
    next
      case False
      then have eq: "get_probe t key key_len hc pl = get_probe t key key_len hc (pl + 1)"
        using le nm by (auto simp add: get_probe.simps[of _ _ _ _ pl] key_match_def Let_def)
      have "P (get_probe t key key_len hc (pl + 1))"
      proof (rule Suc.hyps(1))
        show "m = max_probe t + 1 - (pl + 1)" using Suc.hyps(2) by simp
        show "P NULL" if "\<forall>d. \<not> found_at t key key_len hc (pl + 1) d"
          using that found_at_step[OF nm False] by (intro Suc.prems(1)) simp
        show "P (v_ptr (values_arr t ! loc (index t ! probe_loc t hc d)))"
          if "pl + 1 \<le> d" "d \<le> max_probe t" "key_match t key key_len hc d" for d
          using Suc.prems(2)[of d] that by simp
      qed
      then show ?thesis by (simp only: eq)
    qed
  qed
qed

lemma exists_probe_cases:
  assumes "(\<forall>d. \<not> found_at t key key_len hc pl d) \<Longrightarrow> P False"
    and "\<And>d. pl \<le> d \<Longrightarrow> d \<le> max_probe t \<Longrightarrow> key_match t key key_len hc d \<Longrightarrow> P True"
  shows "P (exists_probe t key key_len hc pl)"
  using assms
proof (induction "max_probe t + 1 - pl" arbitrary: pl)
  case 0
  then have n: "\<not> pl \<le> max_probe t" by simp
  then have "\<forall>d. \<not> found_at t key key_len hc pl d" by (auto simp add: found_at_def)
  then have "P False" by (rule "0.prems"(1))
  then show ?case using n by (simp add: exists_probe.simps[of _ _ _ _ pl])
next
  case (Suc m)
  then have le: "pl \<le> max_probe t" by simp
  show ?case
  proof (cases "key_match t key key_len hc pl")
    case True
    then have "exists_probe t key key_len hc pl"
      using le by (simp add: exists_probe.simps[of _ _ _ _ pl] key_match_def Let_def)
    then show ?thesis using Suc.prems(2)[OF _ le True] by simp
  next
    case nm: False
    show ?thesis
    proof (cases "state (index t ! probe_loc t hc pl) = HT_EMPTY_BUCKET")
      case True
      then have "\<not> exists_probe t key key_len hc pl"
        using le by (simp add: exists_probe.simps[of _ _ _ _ pl] Let_def)
      moreover have "P False" using found_at_stop[OF nm True] by (intro Suc.prems(1)) simp
      ultimately show ?thesis by simp
    next
      case False
      then have eq: "exists_probe t key key_len hc pl = exists_probe t key key_len hc (pl + 1)"
        using le nm by (auto simp add: exists_probe.simps[of _ _ _ _ pl] key_match_def Let_def)
      have "P (exists_probe t key key_len hc (pl + 1))"
      proof (rule Suc.hyps(1))
        show "m = max_probe t + 1 - (pl + 1)" using Suc.hyps(2) by simp
        show "P False" if "\<forall>d. \<not> found_at t key key_len hc (pl + 1) d"
          using that found_at_step[OF nm False] by (intro Suc.prems(1)) simp
        show "P True"
          if "pl + 1 \<le> d" "d \<le> max_probe t" "key_match t key key_len hc d" for d
          using Suc.prems(2)[of d] that by simp
      qed
      then show ?thesis by (simp only: eq)
    qed
  qed
qed

subsection \<open>Evaluating the model on concrete tables\<close>

lemma replicate_numeral: "replicate (numeral k) x = x # replicate (pred_numeral k) x"
  by (simp add: numeral_eq_Suc)

lemma list_update_numeral: "(x # xs)[numeral k := y] = x # xs[pred_numeral k := y]"
  by (simp add: numeral_eq_Suc)

lemma strncmp_numeral:
  "strncmp s1 s2 (numeral k) =
     (let c1 = byte_at s1 0; c2 = byte_at s2 0 in
      if c1 \<noteq> c2 then uint c1 - uint c2
      else if c1 = 0 then 0
      else strncmp (tl s1) (tl s2) (pred_numeral k))"
  by (simp add: numeral_eq_Suc)

lemma strncmp_1:
  "strncmp s1 s2 1 =
     (let c1 = byte_at s1 0; c2 = byte_at s2 0 in
      if c1 \<noteq> c2 then uint c1 - uint c2
      else if c1 = 0 then 0
      else strncmp (tl s1) (tl s2) 0)"
  using strncmp.simps(2)[of s1 s2 0] by simp

lemmas eval_simps = HT_new_def HT_new_ex_def HT_round_up_def HT_calc_expansion_def
  HT_DEFAULT_CAPACITY_def HT_MAX_CAPACITY_def HT_DEFAULT_LOAD_FACTOR_def HT_MAX_KEY_LEN_def
  NULL_def INT_MAX_def empty_bucket_def empty_entry_def HT_put_def HT_get_def HT_exists_def
  HT_remove_def needs_expand_def put_probe.simps get_probe.simps exists_probe.simps
  remove_probe.simps HT_CALC_LOC_def probe_loc_def key_equal_def put_update_def put_insert_def
  remove_at_def HT_hash_def store_key_def key_write_indices_def strncpy_def byte_at_def Let_def
  HT_expand_def expand_probe.simps HT_free_def dealloc_calls_def replicate_numeral
  list_update_numeral strncmp_numeral strncmp_1 fresh_table_def

lemma reachable_run:
  assumes "reachable t" "run t ops = Inr t'"
  shows "reachable t'"
  using assms
proof (induction ops arbitrary: t)
  case Nil
  then show ?case by simp
next
  case (Cons x ops)
  then obtain t1 where "apply_op t x = Inr t1" "run t1 ops = Inr t'"
    by (auto split: sum.splits)
  then show ?case using Cons.IH[of t1] Cons.prems(1) reachable.step by blast
qed

lemma reachable_new:
  assumes "HT_new requested_capacity index_ok values_ok table_ok = Some t"
  shows "reachable t"
  using assms unfolding HT_new_def by (rule reachable.construct)

lemma fresh_table_new: "HT_new HT_DEFAULT_CAPACITY True True True = Some fresh_table"
  by (simp add: fresh_table_def HT_new_def HT_new_ex_def Let_def)

lemma reachable_fresh_table: "reachable fresh_table"
  using fresh_table_new by (rule reachable_new)

lemma reachable_after_run:
  assumes "run fresh_table ops = Inr t"
  shows "reachable t"
  using reachable_fresh_table assms by (rule reachable_run)

lemma run_caseI:
  assumes "run t ops = Inr t'" "P t'"
  shows "case run t ops of Inl f \<Rightarrow> False | Inr t' \<Rightarrow> P t'"
  using assms by simp

subsection \<open>The calls of the deallocator\<close>

lemma dealloc_calls_concat:
  "concat (map (dealloc_calls t) xs)
    = map (\<lambda>b. v_ptr (values_arr t ! loc b))
        (filter (\<lambda>b. state b = HT_BUCKET_OCCUPIED \<and> v_ptr (values_arr t ! loc b) \<noteq> NULL) xs)"
  by (induction xs) (simp_all add: dealloc_calls_def Let_def)

lemma occupied_null_split:
  "length (filter (\<lambda>b. state b = HT_BUCKET_OCCUPIED \<and> v_ptr (values_arr t ! loc b) \<noteq> NULL) xs)
     + length (filter (\<lambda>b. state b = HT_BUCKET_OCCUPIED \<and> v_ptr (values_arr t ! loc b) = NULL) xs)
    = length (filter (\<lambda>b. state b = HT_BUCKET_OCCUPIED) xs)"
  by (induction xs) simp_all

subsection \<open>Tables that have only seen puts\<close>

lemma strncmp_self: "strncmp key key m = 0"
  by (induction m arbitrary: key) (simp_all add: Let_def)

lemma holds_binding_key_equal:
  assumes "holds_binding t b key val" "cmp t = strncmp"
  shows "key_equal t key (length key) (values_arr t ! loc b)"
proof -
  have "strncmp key (k_buf (values_arr t ! loc b)) (length key)
      = strncmp key (take (length key) (k_buf (values_arr t ! loc b))) (length key)"
    by (rule strncmp_take)
  also have "\<dots> = 0" using assms(1) by (simp add: holds_binding_def strncmp_self)
  finally show ?thesis using assms by (simp add: key_equal_def holds_binding_def)
qed

lemma key_equal_holds_binding:
  assumes h: "holds_binding t b key' val'" and cmp: "cmp t = strncmp"
    and nz: "0 \<notin> set key" and eq: "key_equal t key (length key) (values_arr t ! loc b)"
  shows "key' = key"
proof -
  have "strncmp key (k_buf (values_arr t ! loc b)) (length key) = 0"
    using eq cmp by (simp add: key_equal_def)
  then have 1: "take (length key) (k_buf (values_arr t ! loc b)) = key"
    using nz by (intro strncmp_eq_0_take) simp_all
  have "k_len (values_arr t ! loc b) = length key'" using h unfolding holds_binding_def by blast
  moreover have "k_len (values_arr t ! loc b) = length key" using eq unfolding key_equal_def by blast
  ultimately have 2: "length key' = length key" by (simp only:)
  have "take (length key') (k_buf (values_arr t ! loc b)) = key'"
    using h unfolding holds_binding_def by blast
  then have "take (length key) (k_buf (values_arr t ! loc b)) = key'" by (simp only: 2)
  then show ?thesis using 1 by (rule trans[OF sym])
qed

lemma holds_binding_cong:
  assumes "values_arr t' ! loc b = values_arr t ! loc b" "hashcode_fn t' = hashcode_fn t"
  shows "holds_binding t' b key val = holds_binding t b key val"
  using assms by (simp add: holds_binding_def)

lemma stores_put_insert:
  assumes inv: "table_inv t" and il: "ins_loc t < cap t" and j: "j < cap t"
    and st: "stores t kvs" and free: "state (index t ! j) \<noteq> HT_BUCKET_OCCUPIED"
    and nz: "0 \<notin> set key" and len: "length key + 1 < HT_MAX_KEY_LEN"
    and r: "put_insert t j d key (length key) val (hashcode_fn t key (length key)) = Inr (r, t')"
  shows "stores t' (kvs @ [(key, val)])"
    and "r = val \<and> n_elems t' = n_elems t + 1 \<and> ins_loc t' = ins_loc t + 1 \<and> cap t' = cap t
      \<and> expand t' = expand t \<and> load_factor t' = load_factor t \<and> cmp t' = cmp t
      \<and> hashcode_fn t' = hashcode_fn t"
proof -
  note D = table_invD(2-9)[OF inv]
  let ?hc = "hashcode_fn t key (length key)"
  let ?e = "values_arr t ! ins_loc t"
  let ?kb = "(strncpy (k_buf ?e) key (length key))[length key + 1 := 0]"
  let ?ne = "?e\<lparr>k_buf := ?kb, k_len := length key, v_ptr := val\<rparr>"
  let ?nb = "\<lparr>hashcode = ?hc, loc = ins_loc t, state = HT_BUCKET_OCCUPIED\<rparr>"
  have jl: "j < length (index t)" using j D(1) by simp
  have "index t ! j \<in> set (index t)" using jl by simp
  then have "state (index t ! j) \<noteq> HT_DELETED_BUCKET" using st by (simp add: stores_def)
  then have emp: "state (index t ! j) = HT_EMPTY_BUCKET"
    using free by (cases "state (index t ! j)") simp_all
  have ix: "index t' = (index t)[j := ?nb]"
    and va: "values_arr t' = (values_arr t)[ins_loc t := ?ne]"
    and hf: "hashcode_fn t' = hashcode_fn t"
    using r emp by (auto simp add: put_insert_def Let_def store_key_ok[OF len])
  have old: "holds_binding t' b k v = holds_binding t b k v"
    if bi: "b \<in> set (index t)" and bs: "state b \<noteq> HT_EMPTY_BUCKET" for b k v
  proof (rule holds_binding_cong[OF _ hf])
    obtain p where p: "p < cap t" "index t ! p = b"
      using bi D(1) by (auto simp add: in_set_conv_nth)
    have "loc b < ins_loc t" using used_bucket_loc[OF inv p(1)] p(2) bs by simp
    then show "values_arr t' ! loc b = values_arr t ! loc b" by (simp add: va)
  qed
  have keep: "b \<in> set (index t')"
    if bi: "b \<in> set (index t)" and bs: "state b = HT_BUCKET_OCCUPIED" for b
  proof -
    obtain p where p: "p < length (index t)" "index t ! p = b"
      using bi by (auto simp add: in_set_conv_nth)
    have "p \<noteq> j" using p(2) bs free by auto
    then have "index t' ! p = b" using p by (simp add: ix)
    moreover have "p < length (index t')" using p(1) by (simp add: ix)
    ultimately show ?thesis using nth_mem by metis
  qed
  have new: "holds_binding t' ?nb key val"
  proof -
    have "values_arr t' ! ins_loc t = ?ne" using il D(2) by (simp add: va)
    moreover have tw: "takeWhile (\<lambda>c. c \<noteq> 0) key = key"
      using nz by (intro takeWhile_eq_all_conv[THEN iffD2]) auto
    have "take (length key) ?kb = key"
      by (simp add: strncpy_def Let_def tw)
    ultimately show ?thesis by (simp add: holds_binding_def hf)
  qed
  have nbin: "?nb \<in> set (index t')" using jl by (simp add: ix set_update_memI)
  have from': "b = ?nb \<or> b \<in> set (index t)" if "b \<in> set (index t')" for b
    using that set_update_subset_insert[of "index t" j ?nb] by (auto simp add: ix)
  have 1: "\<exists>b\<in>set (index t'). holds_binding t' b (fst kv) (snd kv)"
    if kvin: "kv \<in> set (kvs @ [(key, val)])" for kv
  proof (cases "kv = (key, val)")
    case True
    then show ?thesis using new nbin by auto
  next
    case False
    then have "kv \<in> set kvs" using kvin by simp
    then obtain b where b: "b \<in> set (index t)" "holds_binding t b (fst kv) (snd kv)"
      using st unfolding stores_def by blast
    have o: "state b = HT_BUCKET_OCCUPIED" using b(2) by (simp add: holds_binding_def)
    have "holds_binding t' b (fst kv) (snd kv)" using old[OF b(1)] o b(2) by simp
    then show ?thesis using keep[OF b(1) o] by blast
  qed
  have 2: "\<exists>kv\<in>set (kvs @ [(key, val)]). holds_binding t' b (fst kv) (snd kv)"
    if b': "b \<in> set (index t')" and bs: "state b = HT_BUCKET_OCCUPIED" for b
  proof (cases "b = ?nb")
    case True
    then show ?thesis using new by auto
  next
    case False
    then have bi: "b \<in> set (index t)" using from'[OF b'] by simp
    then obtain kv where kv: "kv \<in> set kvs" "holds_binding t b (fst kv) (snd kv)"
      using st bs unfolding stores_def by blast
    have "holds_binding t' b (fst kv) (snd kv)" using old[OF bi] bs kv(2) by simp
    then show ?thesis using kv(1) by auto
  qed
  have 3: "state b \<noteq> HT_DELETED_BUCKET" if "b \<in> set (index t')" for b
    using from'[OF that] st by (auto simp add: stores_def)
  show "stores t' (kvs @ [(key, val)])" unfolding stores_def using 1 2 3 by blast
  show "r = val \<and> n_elems t' = n_elems t + 1 \<and> ins_loc t' = ins_loc t + 1 \<and> cap t' = cap t
      \<and> expand t' = expand t \<and> load_factor t' = load_factor t \<and> cmp t' = cmp t
      \<and> hashcode_fn t' = hashcode_fn t"
    using r emp by (auto simp add: put_insert_def Let_def store_key_ok[OF len])
qed

lemma stores_put_probe:
  assumes inv: "table_inv t" and il: "ins_loc t < cap t" and room: "n_elems t < cap t"
    and st: "stores t kvs" and cmp: "cmp t = strncmp"
    and nz: "0 \<notin> set key" and len: "length key + 1 < HT_MAX_KEY_LEN"
    and fresh: "key \<notin> fst ` set kvs"
    and r: "put_probe t key (length key) val (hashcode_fn t key (length key)) 0 = Inr (r, t')"
  shows "stores t' (kvs @ [(key, val)])"
    and "r = val \<and> n_elems t' = n_elems t + 1 \<and> ins_loc t' = ins_loc t + 1 \<and> cap t' = cap t
      \<and> expand t' = expand t \<and> load_factor t' = load_factor t \<and> cmp t' = cmp t
      \<and> hashcode_fn t' = hashcode_fn t"
proof -
  let ?hc = "hashcode_fn t key (length key)"
  let ?G = "\<lambda>res. \<forall>r t'. res = Inr (r, t') \<longrightarrow> stores t' (kvs @ [(key, val)])
      \<and> (r = val \<and> n_elems t' = n_elems t + 1 \<and> ins_loc t' = ins_loc t + 1 \<and> cap t' = cap t
      \<and> expand t' = expand t \<and> load_factor t' = load_factor t \<and> cmp t' = cmp t
      \<and> hashcode_fn t' = hashcode_fn t)"
  have "?G (put_probe t key (length key) val ?hc 0)"
  proof (rule put_probe_cases)
    assume "\<forall>d. 0 \<le> d \<and> d \<le> cap t \<longrightarrow> stepped_over t key (length key) ?hc d"
    then have False
      using free_probe_exists[OF inv room, of ?hc] by (auto simp add: stepped_over_def)
    then show "?G (Inr (NULL, t))" by (rule FalseE)
  next
    fix d
    let ?b = "index t ! probe_loc t ?hc d"
    assume m: "key_match t key (length key) ?hc d"
    have "probe_loc t ?hc d < length (index t)"
      using table_inv_probe_loc_less[OF inv] table_invD(2)[OF inv] by simp
    then have "?b \<in> set (index t)" by simp
    moreover have "state ?b = HT_BUCKET_OCCUPIED" using m by (simp add: key_match_def)
    ultimately obtain kv where kv: "kv \<in> set kvs" "holds_binding t ?b (fst kv) (snd kv)"
      using st unfolding stores_def by blast
    have "key_equal t key (length key) (values_arr t ! loc ?b)"
      using m by (simp add: key_match_def)
    then have "fst kv = key" using key_equal_holds_binding[OF kv(2) cmp nz] by simp
    then have False using fresh kv(1) by force
    then show "?G (Inr (val, put_update t ?b val))" by (rule FalseE)
  next
    fix d
    assume free: "state (index t ! probe_loc t ?hc d) \<noteq> HT_BUCKET_OCCUPIED"
    note S = stores_put_insert[OF inv il table_inv_probe_loc_less[OF inv] st free nz len]
    show "?G (put_insert t (probe_loc t ?hc d) d key (length key) val ?hc)"
      using S by blast
  qed
  then show "stores t' (kvs @ [(key, val)])"
    and "r = val \<and> n_elems t' = n_elems t + 1 \<and> ins_loc t' = ins_loc t + 1 \<and> cap t' = cap t
      \<and> expand t' = expand t \<and> load_factor t' = load_factor t \<and> cmp t' = cmp t
      \<and> hashcode_fn t' = hashcode_fn t"
    using r by blast+
qed

lemma HT_expand_buckets:
  assumes inv: "table_inv t" and ex: "HT_expand t index_ok values_ok = Inr (Some t')"
  shows "set (filter (\<lambda>b. state b = HT_BUCKET_OCCUPIED) (index t'))
      = set (filter (\<lambda>b. state b = HT_BUCKET_OCCUPIED) (index t))"
    and "list_all (\<lambda>b. state b \<noteq> HT_DELETED_BUCKET) (index t')"
    and "values_arr t' = values_arr t @ replicate (cap t) empty_entry"
    and "expand t' = HT_calc_expansion (load_factor t) (2 * cap t)"
proof -
  obtain k where k: "4 \<le> k" "k \<le> 31" "cap t = 2 ^ k" using table_invD(1)[OF inv] by blast
  note D = table_invD(2-9)[OF inv]
  let ?O = "\<lambda>b. state b = HT_BUCKET_OCCUPIED"
  have small: "cap t \<le> INT_MAX" and ok: "index_ok" "values_ok"
    using ex by (auto simp add: HT_expand_def Let_def split: if_splits)
  have c': "HT_round_up (cap t * 2) = 2 ^ Suc k"
    using HT_round_up_double[OF k(2)] k(3) by simp
  define t0 where "t0 = t\<lparr>index := replicate (2 ^ Suc k) empty_bucket,
      values_arr := values_arr t @ replicate (2 ^ Suc k - cap t) empty_entry,
      cap := 2 ^ Suc k, expand := HT_calc_expansion (load_factor t) (2 ^ Suc k),
      max_probe := 0\<rparr>"
  have t': "t' = copy_index (index t) t0"
    using ex small ok D(1,2) by (simp add: HT_expand_def Let_def c' t0_def)
  have rb0: "rebuilding (Suc k) t0"
    using k(2) by (simp add: rebuilding_def t0_def list_all_iff empty_bucket_def)
  have oc0: "occupied_count t0 = 0"
    by (simp add: occupied_count_def t0_def empty_bucket_def)
  have "length (filter ?O (index t)) \<le> length (index t)" by (rule length_filter_le)
  then have room: "occupied_count t0 + length (filter ?O (index t)) \<le> cap t0"
    using oc0 D(1) k(3) by (simp add: t0_def)
  note C = copy_index_props[OF rb0 room]
  obtain ix mp where shape: "t' = t0\<lparr>index := ix, max_probe := mp\<rparr>" using C t' by auto
  have rb: "rebuilding (Suc k) t'" using C t' by simp
  have "filter ?O (index t0) = []" by (simp add: t0_def empty_bucket_def)
  then have ms: "mset (filter ?O (index t')) = mset (filter ?O (index t))"
    using C t' by simp
  show "set (filter ?O (index t')) = set (filter ?O (index t))"
    using arg_cong[OF ms, of set_mset] by (simp only: set_mset_mset)
  show "list_all (\<lambda>b. state b \<noteq> HT_DELETED_BUCKET) (index t')"
    using rb by (simp add: rebuilding_def)
  show "values_arr t' = values_arr t @ replicate (cap t) empty_entry"
    using k(3) by (subst shape) (simp add: t0_def)
  show "expand t' = HT_calc_expansion (load_factor t) (2 * cap t)"
    using k(3) by (subst shape) (simp add: t0_def)
qed

lemma stores_expand:
  assumes inv: "table_inv t" and st: "stores t kvs"
    and ex: "HT_expand t index_ok values_ok = Inr (Some t')"
  shows "stores t' kvs"
proof -
  note D = table_invD(2-9)[OF inv]
  note E = HT_expand_buckets[OF inv ex]
  have hf: "hashcode_fn t' = hashcode_fn t" by (rule HT_expand_result(7)[OF inv ex])
  have occ: "b \<in> set (index t') \<and> state b = HT_BUCKET_OCCUPIED
      \<longleftrightarrow> b \<in> set (index t) \<and> state b = HT_BUCKET_OCCUPIED" for b
    using E(1) by (auto simp add: set_eq_iff)
  have old: "holds_binding t' b k v = holds_binding t b k v"
    if bi: "b \<in> set (index t)" and bs: "state b = HT_BUCKET_OCCUPIED" for b k v
  proof (rule holds_binding_cong[OF _ hf])
    obtain p where p: "p < cap t" "index t ! p = b"
      using bi D(1) by (auto simp add: in_set_conv_nth)
    have "loc b < ins_loc t" using used_bucket_loc[OF inv p(1)] p(2) bs by simp
    then have "loc b < length (values_arr t)" using D(2,5) by simp
    then show "values_arr t' ! loc b = values_arr t ! loc b" by (simp add: E(3) nth_append)
  qed
  have 1: "\<exists>b\<in>set (index t'). holds_binding t' b (fst kv) (snd kv)" if kvin: "kv \<in> set kvs" for kv
  proof -
    obtain b where b: "b \<in> set (index t)" "holds_binding t b (fst kv) (snd kv)"
      using st kvin unfolding stores_def by blast
    have o: "state b = HT_BUCKET_OCCUPIED" using b(2) by (simp add: holds_binding_def)
    have "b \<in> set (index t')" using occ[of b] b(1) o by simp
    moreover have "holds_binding t' b (fst kv) (snd kv)" using old[OF b(1) o] b(2) by simp
    ultimately show ?thesis by blast
  qed
  have 2: "\<exists>kv\<in>set kvs. holds_binding t' b (fst kv) (snd kv)"
    if b': "b \<in> set (index t')" and bs: "state b = HT_BUCKET_OCCUPIED" for b
  proof -
    have bi: "b \<in> set (index t)" using occ[of b] b' bs by simp
    then obtain kv where kv: "kv \<in> set kvs" "holds_binding t b (fst kv) (snd kv)"
      using st bs unfolding stores_def by blast
    have "holds_binding t' b (fst kv) (snd kv)" using old[OF bi bs] kv(2) by simp
    then show ?thesis using kv(1) by blast
  qed
  have 3: "state b \<noteq> HT_DELETED_BUCKET" if "b \<in> set (index t')" for b
    using E(2) that by (simp add: list_all_iff)
  show ?thesis unfolding stores_def using 1 2 3 by blast
qed

lemma filled_by_putsD:
  assumes "filled_by_puts t kvs"
  shows "table_inv t" and "stores t kvs" and "cmp t = strncmp"
    and "n_elems t = length kvs" and "ins_loc t = length kvs"
    and "load_factor t = HT_DEFAULT_LOAD_FACTOR"
    and "expand t = HT_calc_expansion HT_DEFAULT_LOAD_FACTOR (cap t)"
  using assms unfolding filled_by_puts_def by blast+

lemma filled_by_puts_new:
  assumes "HT_new requested_capacity True True True = Some t"
  shows "filled_by_puts t []"
proof -
  have e: "HT_new_ex requested_capacity HT_DEFAULT_LOAD_FACTOR HT_hash strncmp True True True
      = Some t"
    using assms by (simp add: HT_new_def)
  obtain k ex lf1 where t: "t = \<lparr>index = replicate (2 ^ k) empty_bucket,
         values_arr = replicate (2 ^ k) empty_entry, n_elems = 0, cap = 2 ^ k, expand = ex,
         max_probe = 0, ins_loc = 0, load_factor = lf1, cmp = strncmp, hashcode_fn = HT_hash\<rparr>"
    using HT_new_ex_shape[OF e] by blast
  have "load_factor t = HT_DEFAULT_LOAD_FACTOR
      \<and> expand t = HT_calc_expansion HT_DEFAULT_LOAD_FACTOR (cap t)"
    using e by (auto simp add: HT_new_ex_def Let_def HT_DEFAULT_LOAD_FACTOR_def split: if_splits)
  moreover have "stores t []" by (simp add: stores_def t empty_bucket_def)
  ultimately show ?thesis
    using table_inv_new_ex[OF e] by (simp add: filled_by_puts_def) (simp add: t)
qed

text \<open>A table of \<open>2 ^ 31\<close> buckets that holds fewer than \<open>2 ^ 30\<close> entries does not grow.\<close>

lemma filled_no_overflow:
  assumes f: "filled_by_puts t kvs" and n: "length kvs < HT_MAX_CAPACITY"
    and ne: "needs_expand t"
  shows "cap t \<le> INT_MAX"
proof (rule ccontr)
  assume "\<not> cap t \<le> INT_MAX"
  then have big: "2 ^ 31 \<le> cap t" by (simp add: INT_MAX_def)
  note F = filled_by_putsD[OF f]
  obtain k where k: "k \<le> 31" "cap t = 2 ^ k" using table_invD(1)[OF F(1)] by blast
  have "(2::nat) ^ 31 \<le> 2 ^ k" using big k(2) by simp
  then have "31 \<le> k" by (rule pow2_leD)
  then have c: "cap t = 2 ^ 31" using k by simp
  have "expand t = 1610612736"
    by (simp add: F(7) c HT_calc_expansion_def HT_DEFAULT_LOAD_FACTOR_def)
  then show False
    using ne n F(4,5) c by (simp add: needs_expand_def HT_MAX_CAPACITY_def)
qed

lemma filled_by_puts_put:
  assumes f: "filled_by_puts t kvs" and n: "length kvs < HT_MAX_CAPACITY"
    and nz: "0 \<notin> set key" and len: "length key + 1 < HT_MAX_KEY_LEN"
    and fresh: "key \<notin> fst ` set kvs"
  shows "\<exists>t'. HT_put t (Some key) (length key) val True True = Inr (val, t')
    \<and> filled_by_puts t' (kvs @ [(key, val)])"
proof -
  note F = filled_by_putsD[OF f]
  note inv = F(1)
  have nl: "\<not> length key > HT_MAX_KEY_LEN - 1" using len by linarith
  have occ_le: "n_elems t \<le> cap t"
    using table_invD(2,4)[OF inv]
      length_filter_le[of "\<lambda>b. state b = HT_BUCKET_OCCUPIED" "index t"]
    by (simp add: occupied_count_def)
  show ?thesis
  proof (cases "needs_expand t")
    case False
    then have il: "ins_loc t < cap t" and room: "n_elems t < cap t"
      using table_invD(6)[OF inv] occ_le by (simp_all add: needs_expand_def)
    obtain r t' where p:
      "put_probe t key (length key) val (hashcode_fn t key (length key)) 0 = Inr (r, t')"
      using put_probe_no_fault[OF len] by blast
    note S = stores_put_probe[OF inv il room F(2,3) nz len fresh p]
    have inv': "table_inv t'" by (rule table_inv_put_probe[OF inv il p])
    have "filled_by_puts t' (kvs @ [(key, val)])"
      unfolding filled_by_puts_def using S inv' F by simp
    moreover have "HT_put t (Some key) (length key) val True True = Inr (val, t')"
      using p nl False S(2) by (simp add: HT_put_def)
    ultimately show ?thesis by blast
  next
    case True
    have "cap t \<le> INT_MAX" by (rule filled_no_overflow[OF f n True])
    then obtain t1 where ex: "HT_expand t True True = Inr (Some t1)"
      by (simp add: HT_expand_def Let_def)
    note R = HT_expand_result[OF inv ex] and E = HT_expand_buckets[OF inv ex]
    have "0 < cap t" using table_invD(1)[OF inv] by auto
    then have room: "n_elems t1 < cap t1" using R(3,4) occ_le by linarith
    have cmp1: "cmp t1 = strncmp" using R(6) F(3) by simp
    obtain r t' where p:
      "put_probe t1 key (length key) val (hashcode_fn t1 key (length key)) 0 = Inr (r, t')"
      using put_probe_no_fault[OF len] by blast
    note S = stores_put_probe[OF R(1,2) room stores_expand[OF inv F(2) ex] cmp1 nz len fresh p]
    have inv': "table_inv t'" by (rule table_inv_put_probe[OF R(1,2) p])
    have "expand t' = HT_calc_expansion HT_DEFAULT_LOAD_FACTOR (cap t')"
      using S(2) E(4) R(3) F(6) by simp
    then have "filled_by_puts t' (kvs @ [(key, val)])"
      unfolding filled_by_puts_def using S inv' F R cmp1 by simp
    moreover have "HT_put t (Some key) (length key) val True True = Inr (val, t')"
      using p nl True ex S(2) by (simp add: HT_put_def)
    ultimately show ?thesis by blast
  qed
qed

lemma filled_by_puts_run:
  assumes "filled_by_puts t0 kvs0"
    and "distinct (map fst (kvs0 @ kvs))"
    and "\<forall>kv\<in>set kvs. 0 \<notin> set (fst kv) \<and> length (fst kv) + 1 < HT_MAX_KEY_LEN"
    and "length (kvs0 @ kvs) \<le> HT_MAX_CAPACITY"
  shows "\<exists>t. run t0 (puts_of kvs) = Inr t \<and> filled_by_puts t (kvs0 @ kvs)"
  using assms
proof (induction kvs arbitrary: t0 kvs0)
  case Nil
  then show ?case by (simp add: puts_of_def)
next
  case (Cons kv kvs)
  have n: "length kvs0 < HT_MAX_CAPACITY" using Cons.prems(4) by simp
  have fresh: "fst kv \<notin> fst ` set kvs0" using Cons.prems(2) by auto
  have k: "0 \<notin> set (fst kv)" "length (fst kv) + 1 < HT_MAX_KEY_LEN" using Cons.prems(3) by simp_all
  obtain t1 where t1: "HT_put t0 (Some (fst kv)) (length (fst kv)) (snd kv) True True
      = Inr (snd kv, t1)" "filled_by_puts t1 (kvs0 @ [(fst kv, snd kv)])"
    using filled_by_puts_put[OF Cons.prems(1) n k fresh] by blast
  have "\<exists>t. run t1 (puts_of kvs) = Inr t \<and> filled_by_puts t ((kvs0 @ [kv]) @ kvs)"
    using Cons.prems t1(2) by (intro Cons.IH) simp_all
  then show ?case using t1(1) by (simp add: puts_of_def)
qed

lemma stores_lookup:
  assumes inv: "table_inv t" and pinv: "probe_inv t" and st: "stores t kvs"
    and cmp: "cmp t = strncmp" and dist: "distinct (map fst kvs)"
    and kv: "kv \<in> set kvs" and nz: "0 \<notin> set (fst kv)"
    and len: "length (fst kv) + 1 < HT_MAX_KEY_LEN"
  shows "HT_get t (Some (fst kv)) (length (fst kv)) = snd kv"
    and "HT_exists t (Some (fst kv)) (length (fst kv))"
proof -
  let ?k = "fst kv"
  let ?hc = "hashcode_fn t ?k (length ?k)"
  note D = table_invD(2-9)[OF inv]
  obtain b where b: "b \<in> set (index t)" "holds_binding t b ?k (snd kv)"
    using st kv unfolding stores_def by blast
  obtain p where p: "p < cap t" "index t ! p = b"
    using b(1) D(1) by (auto simp add: in_set_conv_nth)
  have bo: "state b = HT_BUCKET_OCCUPIED" and bh: "hashcode b = ?hc"
    using b(2) by (simp_all add: holds_binding_def)
  obtain d where d: "d \<le> max_probe t" "chained t ?hc p d"
    using pinv p bo bh unfolding probe_inv_def by metis
  have pl: "index t ! probe_loc t ?hc d = b" using d(2) p(2) by (simp add: chained_def)
  have "key_match t ?k (length ?k) ?hc d"
    using holds_binding_key_equal[OF b(2) cmp] bo bh by (simp add: key_match_def pl)
  then have found: "found_at t ?k (length ?k) ?hc 0 d"
    using d by (simp add: found_at_def chained_def)
  have val: "v_ptr (values_arr t ! loc (index t ! probe_loc t ?hc d')) = snd kv"
    if m: "key_match t ?k (length ?k) ?hc d'" for d'
  proof -
    let ?b = "index t ! probe_loc t ?hc d'"
    have "probe_loc t ?hc d' < length (index t)"
      using table_inv_probe_loc_less[OF inv] D(1) by simp
    then have "?b \<in> set (index t)" by simp
    moreover have "state ?b = HT_BUCKET_OCCUPIED" using m by (simp add: key_match_def)
    ultimately obtain kv' where kv': "kv' \<in> set kvs" "holds_binding t ?b (fst kv') (snd kv')"
      using st unfolding stores_def by blast
    have "key_equal t ?k (length ?k) (values_arr t ! loc ?b)"
      using m by (simp add: key_match_def)
    then have "fst kv' = fst kv" by (rule key_equal_holds_binding[OF kv'(2) cmp nz])
    moreover have "inj_on fst (set kvs)" using dist by (simp add: distinct_map)
    ultimately have "kv' = kv" using kv kv'(1) by (simp add: inj_on_def)
    then show ?thesis using kv'(2) by (simp add: holds_binding_def)
  qed
  have nl: "\<not> length ?k > HT_MAX_KEY_LEN - 1" using len by linarith
  have "get_probe t ?k (length ?k) ?hc 0 = snd kv"
  proof (rule get_probe_cases)
    assume "\<forall>d. \<not> found_at t ?k (length ?k) ?hc 0 d"
    then show "NULL = snd kv" using found by blast
  next
    fix d' assume "key_match t ?k (length ?k) ?hc d'"
    then show "v_ptr (values_arr t ! loc (index t ! probe_loc t ?hc d')) = snd kv" by (rule val)
  qed
  then show "HT_get t (Some ?k) (length ?k) = snd kv" using nl by (simp add: HT_get_def)
  have "exists_probe t ?k (length ?k) ?hc 0"
  proof (rule exists_probe_cases)
    assume "\<forall>d. \<not> found_at t ?k (length ?k) ?hc 0 d"
    then show False using found by blast
  next
    show True ..
  qed
  then show "HT_exists t (Some ?k) (length ?k)" using nl by (simp add: HT_exists_def)
qed

text \<open>
  The round trip, for keys the key buffer has room for: up to \<open>2 ^ 30\<close> puts of
  distinct strings of at most 30 bytes, each passed with its length, into a new
  table all return, and every key is then found with its handle.
\<close>

lemma round_trip_30_byte_keys:
  assumes new: "HT_new requested_capacity True True True = Some t0"
    and dist: "distinct (map fst kvs)"
    and keys: "\<forall>kv\<in>set kvs. 0 \<notin> set (fst kv) \<and> length (fst kv) + 1 < HT_MAX_KEY_LEN"
    and n: "length kvs \<le> HT_MAX_CAPACITY"
  shows "\<exists>t. run t0 (puts_of kvs) = Inr t
    \<and> (\<forall>kv\<in>set kvs. HT_get t (Some (fst kv)) (length (fst kv)) = snd kv
          \<and> HT_exists t (Some (fst kv)) (length (fst kv)))"
proof -
  obtain t where t: "run t0 (puts_of kvs) = Inr t" "filled_by_puts t kvs"
    using filled_by_puts_run[OF filled_by_puts_new[OF new], of kvs] dist keys n by auto
  have re: "reachable t" by (rule reachable_run[OF reachable_new[OF new] t(1)])
  note F = filled_by_putsD[OF t(2)]
  have "HT_get t (Some (fst kv)) (length (fst kv)) = snd kv
      \<and> HT_exists t (Some (fst kv)) (length (fst kv))" if "kv \<in> set kvs" for kv
    using stores_lookup[OF F(1) reachable_probe_inv[OF re] F(2,3) dist that] keys that by blast
  then show ?thesis using t(1) by blast
qed

section \<open>The claims\<close>

text \<open>
  The keys of the scenarios below are one-byte strings: \<^verbatim>\<open>"a"\<close> is the byte 97,
  \<^verbatim>\<open>"q"\<close> the byte 113. In a table of capacity 16 the default hash sends the byte
  \<open>c\<close> to the bucket \<open>(5 + c) mod 16\<close>, so \<^verbatim>\<open>"a"\<close> to \<^verbatim>\<open>"p"\<close> have the sixteen buckets
  as their homes and \<^verbatim>\<open>"a"\<close> and \<^verbatim>\<open>"q"\<close> share bucket 6.
\<close>

subsection \<open>C1: the round trip\<close>

text \<open>
  Claim C1 says that after puts of pairwise distinct keys of length at most
  \<open>HT_MAX_KEY_LEN - 1\<close> into a freshly constructed table with the default strategies
  every \<^verbatim>\<open>get(k\<^sub>i)\<close> returns \<open>v\<^sub>i\<close> and every \<^verbatim>\<open>exists(k\<^sub>i)\<close> is true. A key of
  length \<open>HT_MAX_KEY_LEN - 1 = 31\<close> never gets that far: on any table \<^verbatim>\<open>HT_new\<close>
  returns, \<^verbatim>\<open>HT_put\<close> of any 31-byte key with any value runs into the write
  \<^verbatim>\<open>e->k[32] = '\0'\<close> past the end of the key buffer, which is undefined behaviour;
  no table state comes out of the put that a \<^verbatim>\<open>get\<close> could be run on.
\<close>

theorem HT_put_31_byte_key_into_new_table:
  assumes "HT_new requested_capacity True True True = Some t"
  shows "HT_put t (Some key) 31 val index_ok values_ok = Inl (KeyBufferOverrun 32)"
proof -
  obtain k ex lf1 where k: "4 \<le> k" "k \<le> 30"
    and t: "t = \<lparr>index = replicate (2 ^ k) empty_bucket,
         values_arr = replicate (2 ^ k) empty_entry, n_elems = 0, cap = 2 ^ k, expand = ex,
         max_probe = 0, ins_loc = 0, load_factor = lf1, cmp = strncmp, hashcode_fn = HT_hash\<rparr>"
    using HT_new_ex_shape[OF assms[unfolded HT_new_def]] by blast
  have c: "cap t = 2 ^ k" by (simp add: t)
  have pos: "(0::nat) < 2 ^ k" by simp
  have ne: "\<not> needs_expand t" using pos by (simp add: needs_expand_def t)
  let ?hc = "hashcode_fn t key 31"
  have p: "probe_loc t ?hc 0 < 2 ^ k" using probe_loc_less[of t k ?hc 0] c k(2) by simp
  then have e: "state (index t ! probe_loc t ?hc 0) = HT_EMPTY_BUCKET"
    by (simp add: t empty_bucket_def)
  have "store_key (k_buf (values_arr t ! 0)) key 31 = Inl (KeyBufferOverrun (31 + 1))"
    by (rule store_key_Inl) (simp_all add: HT_MAX_KEY_LEN_def)
  then have "put_insert t (probe_loc t ?hc 0) 0 key 31 val ?hc = Inl (KeyBufferOverrun 32)"
    using e by (simp add: put_insert_def Let_def t)
  then have "put_probe t key 31 val ?hc 0 = Inl (KeyBufferOverrun 32)"
    using e by (simp add: put_probe.simps[of t key 31 val ?hc 0] Let_def)
  then show ?thesis using ne by (simp add: HT_put_def HT_MAX_KEY_LEN_def)
qed

text \<open>Witness: \<^verbatim>\<open>HT_new(30)\<close>, as in the sample of the header, and a key of 31 bytes \<^verbatim>\<open>'k'\<close>.\<close>

theorem HT_put_31_byte_key_into_new_table_witness:
  "case HT_new 30 True True True of
     None \<Rightarrow> False
   | Some t \<Rightarrow>
       cap t = 32 \<and> HT_put t (Some (replicate 31 107)) 31 7 True True
         = Inl (KeyBufferOverrun 32)"
proof -
  have "\<exists>t. HT_new 30 True True True = Some t \<and> cap t = 32"
    by (simp add: HT_new_def HT_new_ex_def HT_round_up_def HT_DEFAULT_CAPACITY_def
        HT_MAX_CAPACITY_def Let_def)
  then show ?thesis
  proof (elim exE conjE)
    fix t
    assume t: "HT_new 30 True True True = Some t" and c: "cap t = 32"
    have "HT_put t (Some (replicate 31 107)) 31 7 True True = Inl (KeyBufferOverrun 32)"
      by (rule HT_put_31_byte_key_into_new_table[OF t])
    then show ?thesis using c by (simp add: t)
  qed
qed

text \<open>
  For keys the buffer has room for the round trip does hold: by
  \<open>round_trip_30_byte_keys\<close>, up to \<open>2 ^ 30\<close> puts of pairwise distinct strings of
  at most 30 bytes, each passed with its length, into a table \<^verbatim>\<open>HT_new\<close> returned all
  return, and each key is then found with its handle.
\<close>

subsection \<open>C2: removal\<close>

text \<open>
  Claim C2 says that after \<^verbatim>\<open>remove(t, k, len)\<close> has returned the stored value of a
  key that is present, \<^verbatim>\<open>exists\<close> is false, \<^verbatim>\<open>get\<close> is null and \<open>n\<close> is one less.
  After \<^verbatim>\<open>put("a", 10)\<close>, \<^verbatim>\<open>put("q", 20)\<close>, \<^verbatim>\<open>remove("a")\<close> and \<^verbatim>\<open>put("q", 30)\<close> on a fresh
  table the key \<^verbatim>\<open>"q"\<close> is bound twice (the second put took the tombstone of
  \<^verbatim>\<open>"a"\<close>). \<^verbatim>\<open>remove("q")\<close> then returns 30 and \<open>n\<close> goes from 2 to 1, but
  \<^verbatim>\<open>exists("q")\<close> is still true and \<^verbatim>\<open>get("q")\<close> returns 20.
\<close>

theorem HT_remove_leaves_second_binding:
  "case run fresh_table
      [Put (Some [97]) 1 10 True True, Put (Some [113]) 1 20 True True,
       Remove (Some [97]) 1, Put (Some [113]) 1 30 True True] of
     Inl f \<Rightarrow> False
   | Inr t \<Rightarrow>
       n_elems t = 2 \<and> HT_exists t (Some [113]) 1 \<and>
       (case HT_remove t (Some [113]) 1 of
          (r, t') \<Rightarrow> r = 30 \<and> n_elems t' = 1 \<and> HT_exists t' (Some [113]) 1
            \<and> HT_get t' (Some [113]) 1 = 20 \<and> HT_get t' (Some [113]) 1 \<noteq> NULL)"
  by (simp add: eval_simps)

subsection \<open>C3: an empty bucket\<close>

text \<open>
  Claim C3 says that in every reachable table with \<open>n < cap\<close> some bucket of the
  index is EMPTY. A tombstone is not EMPTY and is not counted in \<open>n\<close>: after
  thirteen puts of \<^verbatim>\<open>"a"\<close> to \<^verbatim>\<open>"m"\<close> and three rounds of a remove and a put of a new
  key (\<^verbatim>\<open>"n"\<close>, \<^verbatim>\<open>"o"\<close>, \<^verbatim>\<open>"p"\<close>) no resize has happened, \<open>n = 13 < 16 = cap\<close>, and the
  sixteen buckets are thirteen OCCUPIED and three DELETED.
\<close>

theorem no_empty_bucket_counterexample:
  "case run fresh_table
      [Put (Some [97]) 1 5 True True, Put (Some [98]) 1 5 True True,
       Put (Some [99]) 1 5 True True, Put (Some [100]) 1 5 True True,
       Put (Some [101]) 1 5 True True, Put (Some [102]) 1 5 True True,
       Put (Some [103]) 1 5 True True, Put (Some [104]) 1 5 True True,
       Put (Some [105]) 1 5 True True, Put (Some [106]) 1 5 True True,
       Put (Some [107]) 1 5 True True, Put (Some [108]) 1 5 True True,
       Put (Some [109]) 1 5 True True,
       Remove (Some [97]) 1, Put (Some [110]) 1 5 True True,
       Remove (Some [98]) 1, Put (Some [111]) 1 5 True True,
       Remove (Some [99]) 1, Put (Some [112]) 1 5 True True] of
     Inl f \<Rightarrow> False
   | Inr t \<Rightarrow>
       reachable t \<and> n_elems t = 13 \<and> cap t = 16 \<and> n_elems t < cap t \<and>
       map state (index t) =
         [HT_BUCKET_OCCUPIED, HT_BUCKET_OCCUPIED, HT_BUCKET_OCCUPIED, HT_BUCKET_OCCUPIED,
          HT_BUCKET_OCCUPIED, HT_BUCKET_OCCUPIED, HT_DELETED_BUCKET, HT_DELETED_BUCKET,
          HT_DELETED_BUCKET, HT_BUCKET_OCCUPIED, HT_BUCKET_OCCUPIED, HT_BUCKET_OCCUPIED,
          HT_BUCKET_OCCUPIED, HT_BUCKET_OCCUPIED, HT_BUCKET_OCCUPIED, HT_BUCKET_OCCUPIED] \<and>
       HT_EMPTY_BUCKET \<notin> set (map state (index t))"
proof -
  let ?ops = "[Put (Some [97]) 1 5 True True, Put (Some [98]) 1 5 True True,
       Put (Some [99]) 1 5 True True, Put (Some [100]) 1 5 True True,
       Put (Some [101]) 1 5 True True, Put (Some [102]) 1 5 True True,
       Put (Some [103]) 1 5 True True, Put (Some [104]) 1 5 True True,
       Put (Some [105]) 1 5 True True, Put (Some [106]) 1 5 True True,
       Put (Some [107]) 1 5 True True, Put (Some [108]) 1 5 True True,
       Put (Some [109]) 1 5 True True,
       Remove (Some [97]) 1, Put (Some [110]) 1 5 True True,
       Remove (Some [98]) 1, Put (Some [111]) 1 5 True True,
       Remove (Some [99]) 1, Put (Some [112]) 1 5 True True]"
  let ?states = "[HT_BUCKET_OCCUPIED, HT_BUCKET_OCCUPIED, HT_BUCKET_OCCUPIED,
          HT_BUCKET_OCCUPIED, HT_BUCKET_OCCUPIED, HT_BUCKET_OCCUPIED, HT_DELETED_BUCKET,
          HT_DELETED_BUCKET, HT_DELETED_BUCKET, HT_BUCKET_OCCUPIED, HT_BUCKET_OCCUPIED,
          HT_BUCKET_OCCUPIED, HT_BUCKET_OCCUPIED, HT_BUCKET_OCCUPIED, HT_BUCKET_OCCUPIED,
          HT_BUCKET_OCCUPIED]"
  have "\<exists>t. run fresh_table ?ops = Inr t \<and> n_elems t = 13 \<and> cap t = 16 \<and>
       map state (index t) = ?states"
    by (simp add: eval_simps)
  then show ?thesis
  proof (elim exE conjE)
    fix t
    assume t: "run fresh_table ?ops = Inr t"
      and f: "n_elems t = 13" "cap t = 16" "map state (index t) = ?states"
    have r: "reachable t" using t by (rule reachable_after_run)
    have e: "HT_EMPTY_BUCKET \<notin> set (map state (index t))" by (simp only: f(3)) simp
    show ?thesis by (rule run_caseI[OF t]) (use r f e in simp)
  qed
qed

text \<open>
  Claim C3 as amended: in every reachable table in which the insertion cursor
  \<open>ins_loc\<close> is below \<open>cap\<close>, some bucket of the index is EMPTY. (The resize check
  of \<^verbatim>\<open>HT_put\<close> makes \<open>ins_loc < cap\<close> hold before its probe loop runs.)
\<close>

theorem empty_bucket_while_cursor_below_cap:
  assumes "reachable t" "ins_loc t < cap t"
  shows "\<exists>b\<in>set (index t). state b = HT_EMPTY_BUCKET"
proof (rule ccontr)
  assume "\<not> (\<exists>b\<in>set (index t). state b = HT_EMPTY_BUCKET)"
  then have "used_buckets t = index t" by (simp add: used_buckets_def)
  then show False
    using table_invD(2,5)[OF reachable_inv[OF assms(1)]] assms(2) by simp
qed

text \<open>Witness: the table of the counterexample one put earlier, with \<open>ins_loc = 15\<close>.\<close>

theorem empty_bucket_while_cursor_below_cap_witness:
  "case run fresh_table
      [Put (Some [97]) 1 5 True True, Put (Some [98]) 1 5 True True,
       Put (Some [99]) 1 5 True True, Put (Some [100]) 1 5 True True,
       Put (Some [101]) 1 5 True True, Put (Some [102]) 1 5 True True,
       Put (Some [103]) 1 5 True True, Put (Some [104]) 1 5 True True,
       Put (Some [105]) 1 5 True True, Put (Some [106]) 1 5 True True,
       Put (Some [107]) 1 5 True True, Put (Some [108]) 1 5 True True,
       Put (Some [109]) 1 5 True True,
       Remove (Some [97]) 1, Put (Some [110]) 1 5 True True,
       Remove (Some [98]) 1, Put (Some [111]) 1 5 True True,
       Remove (Some [99]) 1] of
     Inl f \<Rightarrow> False
   | Inr t \<Rightarrow>
       reachable t \<and> ins_loc t = 15 \<and> cap t = 16
       \<and> (\<exists>b\<in>set (index t). state b = HT_EMPTY_BUCKET)"
proof -
  let ?ops = "[Put (Some [97]) 1 5 True True, Put (Some [98]) 1 5 True True,
       Put (Some [99]) 1 5 True True, Put (Some [100]) 1 5 True True,
       Put (Some [101]) 1 5 True True, Put (Some [102]) 1 5 True True,
       Put (Some [103]) 1 5 True True, Put (Some [104]) 1 5 True True,
       Put (Some [105]) 1 5 True True, Put (Some [106]) 1 5 True True,
       Put (Some [107]) 1 5 True True, Put (Some [108]) 1 5 True True,
       Put (Some [109]) 1 5 True True,
       Remove (Some [97]) 1, Put (Some [110]) 1 5 True True,
       Remove (Some [98]) 1, Put (Some [111]) 1 5 True True,
       Remove (Some [99]) 1]"
  have "\<exists>t. run fresh_table ?ops = Inr t \<and> ins_loc t = 15 \<and> cap t = 16"
    by (simp add: eval_simps)
  then show ?thesis
  proof (elim exE conjE)
    fix t
    assume t: "run fresh_table ?ops = Inr t" and f: "ins_loc t = 15" "cap t = 16"
    have r: "reachable t" using t by (rule reachable_after_run)
    have "ins_loc t < cap t" using f by simp
    then have e: "\<exists>b\<in>set (index t). state b = HT_EMPTY_BUCKET"
      by (rule empty_bucket_while_cursor_below_cap[OF r])
    show ?thesis by (rule run_caseI[OF t]) (intro conjI r f e)
  qed
qed

subsection \<open>C4: a put that meets a tombstone before its key\<close>

text \<open>
  Claim C4 says that when \<^verbatim>\<open>HT_put\<close> is called with a key that an OCCUPIED bucket
  already holds, and a DELETED bucket stands strictly earlier on the key's probe
  path, the put inserts a second binding at the tombstone and increments \<open>n\<close>
  and does not update the binding the key already had, so that two OCCUPIED
  buckets hold the key. It fails on two reachable tables.

  First, a put that resizes: after \<^verbatim>\<open>put("a")\<close>, \<^verbatim>\<open>put("q")\<close>, \<^verbatim>\<open>remove("a")\<close> and the
  puts of \<^verbatim>\<open>"b"\<close> to \<^verbatim>\<open>"m"\<close> the table has \<open>n = 13 > expand = 12\<close>, a tombstone in the
  home bucket of \<^verbatim>\<open>"q"\<close> and \<^verbatim>\<open>"q"\<close> in the next bucket. \<^verbatim>\<open>put("q", 30)\<close> resizes first;
  the rebuilt index has no tombstone, the loop finds \<^verbatim>\<open>"q"\<close> and updates it:
  \<open>n\<close> stays 13 and one bucket holds \<^verbatim>\<open>"q"\<close>, with the value 30.

  Second, a key bound before the tombstone too: \<^verbatim>\<open>"A"\<close>, \<^verbatim>\<open>"Q"\<close> and \<^verbatim>\<open>"a"\<close> (the bytes
  65, 81 and 97) share their home bucket. After \<^verbatim>\<open>put("A")\<close>, \<^verbatim>\<open>put("Q")\<close>, \<^verbatim>\<open>put("a")\<close>,
  \<^verbatim>\<open>remove("A")\<close>, \<^verbatim>\<open>put("a")\<close>, \<^verbatim>\<open>remove("Q")\<close> the key \<^verbatim>\<open>"a"\<close> stands at the probe
  distances 0 and 2 with a tombstone at distance 1, and no resize is due.
  \<^verbatim>\<open>put("a", 50)\<close> updates the binding at distance 0: the index is as it was, the
  tombstone included, and \<open>n\<close> stays 2.
\<close>

theorem HT_put_updates_behind_tombstone_counterexample:
  "(case run fresh_table
      [Put (Some [97]) 1 10 True True, Put (Some [113]) 1 20 True True,
       Remove (Some [97]) 1,
       Put (Some [98]) 1 5 True True, Put (Some [99]) 1 5 True True,
       Put (Some [100]) 1 5 True True, Put (Some [101]) 1 5 True True,
       Put (Some [102]) 1 5 True True, Put (Some [103]) 1 5 True True,
       Put (Some [104]) 1 5 True True, Put (Some [105]) 1 5 True True,
       Put (Some [106]) 1 5 True True, Put (Some [107]) 1 5 True True,
       Put (Some [108]) 1 5 True True, Put (Some [109]) 1 5 True True] of
     Inl f \<Rightarrow> False
   | Inr t \<Rightarrow>
       reachable t \<and> n_elems t = 13 \<and> cap t = 16
       \<and> state (index t ! probe_loc t (hashcode_fn t [113] 1) 0) = HT_DELETED_BUCKET
       \<and> key_match t [113] 1 (hashcode_fn t [113] 1) 1
       \<and> (case HT_put t (Some [113]) 1 30 True True of
            Inl f \<Rightarrow> False
          | Inr (r, t') \<Rightarrow> r = 30 \<and> n_elems t' = 13 \<and> cap t' = 32
              \<and> length (filter (\<lambda>b. state b = HT_BUCKET_OCCUPIED
                    \<and> key_equal t' [113] 1 (values_arr t' ! loc b)) (index t')) = 1
              \<and> HT_get t' (Some [113]) 1 = 30))
   \<and> (case run fresh_table
      [Put (Some [65]) 1 10 True True, Put (Some [81]) 1 20 True True,
       Put (Some [97]) 1 30 True True, Remove (Some [65]) 1,
       Put (Some [97]) 1 40 True True, Remove (Some [81]) 1] of
     Inl f \<Rightarrow> False
   | Inr t \<Rightarrow>
       reachable t \<and> n_elems t = 2 \<and> \<not> needs_expand t
       \<and> state (index t ! probe_loc t (hashcode_fn t [97] 1) 1) = HT_DELETED_BUCKET
       \<and> key_match t [97] 1 (hashcode_fn t [97] 1) 2
       \<and> (case HT_put t (Some [97]) 1 50 True True of
            Inl f \<Rightarrow> False
          | Inr (r, t') \<Rightarrow> r = 50 \<and> n_elems t' = 2 \<and> index t' = index t
              \<and> state (index t' ! probe_loc t' (hashcode_fn t [97] 1) 1) = HT_DELETED_BUCKET
              \<and> HT_get t' (Some [97]) 1 = 50))"
proof -
  let ?ops1 = "[Put (Some [97]) 1 10 True True, Put (Some [113]) 1 20 True True,
       Remove (Some [97]) 1,
       Put (Some [98]) 1 5 True True, Put (Some [99]) 1 5 True True,
       Put (Some [100]) 1 5 True True, Put (Some [101]) 1 5 True True,
       Put (Some [102]) 1 5 True True, Put (Some [103]) 1 5 True True,
       Put (Some [104]) 1 5 True True, Put (Some [105]) 1 5 True True,
       Put (Some [106]) 1 5 True True, Put (Some [107]) 1 5 True True,
       Put (Some [108]) 1 5 True True, Put (Some [109]) 1 5 True True]"
  let ?ops2 = "[Put (Some [65]) 1 10 True True, Put (Some [81]) 1 20 True True,
       Put (Some [97]) 1 30 True True, Remove (Some [65]) 1,
       Put (Some [97]) 1 40 True True, Remove (Some [81]) 1]"
  let ?R1 = "\<lambda>t. n_elems t = 13 \<and> cap t = 16
       \<and> state (index t ! probe_loc t (hashcode_fn t [113] 1) 0) = HT_DELETED_BUCKET
       \<and> key_match t [113] 1 (hashcode_fn t [113] 1) 1
       \<and> (case HT_put t (Some [113]) 1 30 True True of
            Inl f \<Rightarrow> False
          | Inr (r, t') \<Rightarrow> r = 30 \<and> n_elems t' = 13 \<and> cap t' = 32
              \<and> length (filter (\<lambda>b. state b = HT_BUCKET_OCCUPIED
                    \<and> key_equal t' [113] 1 (values_arr t' ! loc b)) (index t')) = 1
              \<and> HT_get t' (Some [113]) 1 = 30)"
  let ?R2 = "\<lambda>t. n_elems t = 2 \<and> \<not> needs_expand t
       \<and> state (index t ! probe_loc t (hashcode_fn t [97] 1) 1) = HT_DELETED_BUCKET
       \<and> key_match t [97] 1 (hashcode_fn t [97] 1) 2
       \<and> (case HT_put t (Some [97]) 1 50 True True of
            Inl f \<Rightarrow> False
          | Inr (r, t') \<Rightarrow> r = 50 \<and> n_elems t' = 2 \<and> index t' = index t
              \<and> state (index t' ! probe_loc t' (hashcode_fn t [97] 1) 1) = HT_DELETED_BUCKET
              \<and> HT_get t' (Some [97]) 1 = 50)"
  have "\<exists>t. run fresh_table ?ops1 = Inr t \<and> ?R1 t"
    by (simp add: eval_simps key_match_def)
  then obtain t1 where "run fresh_table ?ops1 = Inr t1 \<and> ?R1 t1" ..
  then have t1: "run fresh_table ?ops1 = Inr t1" "?R1 t1" by (rule conjunct1, rule conjunct2)
  have "\<exists>t. run fresh_table ?ops2 = Inr t \<and> ?R2 t"
    by (simp add: eval_simps key_match_def)
  then obtain t2 where "run fresh_table ?ops2 = Inr t2 \<and> ?R2 t2" ..
  then have t2: "run fresh_table ?ops2 = Inr t2" "?R2 t2" by (rule conjunct1, rule conjunct2)
  have r1: "reachable t1" using t1(1) by (rule reachable_after_run)
  have r2: "reachable t2" using t2(1) by (rule reachable_after_run)
  have 1: "case run fresh_table ?ops1 of Inl f \<Rightarrow> False | Inr t \<Rightarrow> reachable t \<and> ?R1 t"
    by (rule run_caseI[OF t1(1)]) (intro conjI r1 t1(2))
  have 2: "case run fresh_table ?ops2 of Inl f \<Rightarrow> False | Inr t \<Rightarrow> reachable t \<and> ?R2 t"
    by (rule run_caseI[OF t2(1)]) (intro conjI r2 t2(2))
  from 1 2 show ?thesis by (rule conjI)
qed

text \<open>
  Claim C4 as amended: when \<^verbatim>\<open>HT_put\<close> triggers no resize and is called with a key
  that an OCCUPIED bucket already holds (at the probe distance \<open>d2\<close>), a DELETED
  bucket stands strictly earlier on the key's probe path (at \<open>d1 < d2\<close>), and no
  bucket before that DELETED bucket holds the key, then the put takes the first
  tombstone of the path (at \<open>d0 \<le> d1\<close>): it returns the value, \<open>n\<close> is one more,
  the bucket of the tombstone is OCCUPIED with the key's hash and the entry the
  tombstone referred to, which now holds the copied key, its length and the new
  value; the bucket that held the key and its entry, a different one, are as
  they were, old value included. With the default comparator both buckets match
  the key afterwards.
\<close>

theorem HT_put_inserts_at_tombstone_before_key:
  assumes r: "reachable t" and ne: "\<not> needs_expand t"
    and hc: "hc = hashcode_fn t key key_len"
    and stored: "key_match t key key_len hc d2"
    and d12: "d1 < d2"
    and tomb: "state (index t ! probe_loc t hc d1) = HT_DELETED_BUCKET"
    and nomatch: "\<forall>d<d1. \<not> key_match t key key_len hc d"
  shows "\<exists>d0 t'. d0 \<le> d1
    \<and> state (index t ! probe_loc t hc d0) = HT_DELETED_BUCKET
    \<and> (\<forall>d<d0. state (index t ! probe_loc t hc d) \<noteq> HT_DELETED_BUCKET)
    \<and> HT_put t (Some key) key_len val index_ok values_ok = Inr (val, t')
    \<and> n_elems t' = n_elems t + 1
    \<and> index t' = (index t)[probe_loc t hc d0 :=
          \<lparr>hashcode = hc, loc = loc (index t ! probe_loc t hc d0), state = HT_BUCKET_OCCUPIED\<rparr>]
    \<and> values_arr t' = (values_arr t)[loc (index t ! probe_loc t hc d0) :=
          \<lparr>k_buf = (strncpy (k_buf (values_arr t ! loc (index t ! probe_loc t hc d0)))
               key key_len)[key_len + 1 := 0],
           k_len = key_len, v_ptr = val\<rparr>]
    \<and> probe_loc t hc d0 \<noteq> probe_loc t hc d2
    \<and> loc (index t ! probe_loc t hc d0) \<noteq> loc (index t ! probe_loc t hc d2)
    \<and> state (index t' ! probe_loc t' hc d0) = HT_BUCKET_OCCUPIED
    \<and> hashcode (index t' ! probe_loc t' hc d0) = hc
    \<and> index t' ! probe_loc t' hc d2 = index t ! probe_loc t hc d2
    \<and> values_arr t' ! loc (index t ! probe_loc t hc d2)
        = values_arr t ! loc (index t ! probe_loc t hc d2)
    \<and> key_match t' key key_len hc d2
    \<and> (cmp t = strncmp \<longrightarrow> key_match t' key key_len hc d0)"
proof -
  note inv = reachable_inv[OF r]
  obtain d0 where d0: "d0 \<le> d1" "d0 < cap t"
    and tomb0: "state (index t ! probe_loc t hc d0) = HT_DELETED_BUCKET"
    and first0: "\<forall>d<d0. state (index t ! probe_loc t hc d) \<noteq> HT_DELETED_BUCKET"
    using first_tombstone[OF inv tomb] by blast
  have full: "\<forall>d\<le>d1. state (index t ! probe_loc t hc d) \<noteq> HT_EMPTY_BUCKET"
    by (rule no_empty_up_to_tombstone[OF inv reachable_probe_inv[OF r] stored tomb nomatch])
  have before: "\<forall>d<d0. stepped_over t key key_len hc d"
  proof (intro allI impI)
    fix d assume d: "d < d0"
    then have "state (index t ! probe_loc t hc d) \<noteq> HT_EMPTY_BUCKET"
      and "\<not> key_match t key key_len hc d"
      using full nomatch d0(1) by simp_all
    moreover have "state (index t ! probe_loc t hc d) \<noteq> HT_DELETED_BUCKET"
      using first0 d by simp
    ultimately show "stepped_over t key key_len hc d"
      by (cases "state (index t ! probe_loc t hc d)") (simp_all add: stepped_over_def)
  qed
  have c0: "d0 \<le> cap t" using d0(2) by simp
  note T = put_probe_takes_tombstone[OF inv ne hc c0 before tomb0 stored,
      of val index_ok values_ok]
  from T d0(1) tomb0 first0 show ?thesis by (intro exI[of _ d0]) simp
qed

text \<open>
  Witness: \<^verbatim>\<open>put("a", 10)\<close>, \<^verbatim>\<open>put("q", 20)\<close>, \<^verbatim>\<open>remove("a")\<close> on a fresh table leave a
  tombstone in bucket 6 and \<^verbatim>\<open>"q"\<close> in bucket 7; \<^verbatim>\<open>put("q", 30)\<close> then binds \<^verbatim>\<open>"q"\<close> a
  second time, in bucket 6, and the binding in bucket 7 keeps the value 20.
\<close>

theorem HT_put_inserts_at_tombstone_before_key_witness:
  "case run fresh_table
      [Put (Some [97]) 1 10 True True, Put (Some [113]) 1 20 True True,
       Remove (Some [97]) 1] of
     Inl f \<Rightarrow> False
   | Inr t \<Rightarrow>
       reachable t \<and> \<not> needs_expand t \<and> n_elems t = 1
       \<and> state (index t ! probe_loc t (hashcode_fn t [113] 1) 0) = HT_DELETED_BUCKET
       \<and> key_match t [113] 1 (hashcode_fn t [113] 1) 1
       \<and> (\<exists>t'. HT_put t (Some [113]) 1 30 True True = Inr (30, t')
            \<and> n_elems t' = 2
            \<and> key_match t' [113] 1 (hashcode_fn t [113] 1) 0
            \<and> key_match t' [113] 1 (hashcode_fn t [113] 1) 1
            \<and> HT_get t' (Some [113]) 1 = 30
            \<and> v_ptr (values_arr t' ! loc (index t' ! probe_loc t' (hashcode_fn t [113] 1) 1)) = 20)"
proof -
  let ?ops = "[Put (Some [97]) 1 10 True True, Put (Some [113]) 1 20 True True,
       Remove (Some [97]) 1]"
  have "\<exists>t. run fresh_table ?ops = Inr t \<and> \<not> needs_expand t \<and> n_elems t = 1
       \<and> state (index t ! probe_loc t (hashcode_fn t [113] 1) 0) = HT_DELETED_BUCKET
       \<and> key_match t [113] 1 (hashcode_fn t [113] 1) 1 \<and> cmp t = strncmp
       \<and> (\<forall>t'. HT_put t (Some [113]) 1 30 True True = Inr (30, t')
            \<longrightarrow> HT_get t' (Some [113]) 1 = 30
              \<and> v_ptr (values_arr t'
                   ! loc (index t' ! probe_loc t' (hashcode_fn t [113] 1) 1)) = 20)"
    by (simp add: eval_simps key_match_def)
  then show ?thesis
  proof (elim exE conjE)
    fix t
    assume t: "run fresh_table ?ops = Inr t"
      and ne: "\<not> needs_expand t" and n: "n_elems t = 1"
      and tomb: "state (index t ! probe_loc t (hashcode_fn t [113] 1) 0) = HT_DELETED_BUCKET"
      and stored: "key_match t [113] 1 (hashcode_fn t [113] 1) 1"
      and cm: "cmp t = strncmp"
      and g: "\<forall>t'. HT_put t (Some [113]) 1 30 True True = Inr (30, t')
            \<longrightarrow> HT_get t' (Some [113]) 1 = 30
              \<and> v_ptr (values_arr t'
                   ! loc (index t' ! probe_loc t' (hashcode_fn t [113] 1) 1)) = 20"
    have r: "reachable t" using t by (rule reachable_after_run)
    have b: "\<forall>d<0. \<not> key_match t [113] 1 (hashcode_fn t [113] 1) d" by simp
    have "0 < (1::nat)" by simp
    note T = HT_put_inserts_at_tombstone_before_key[OF r ne refl stored this tomb b,
        of 30 True True]
    have "\<exists>t'. HT_put t (Some [113]) 1 30 True True = Inr (30, t')
            \<and> n_elems t' = 2
            \<and> key_match t' [113] 1 (hashcode_fn t [113] 1) 0
            \<and> key_match t' [113] 1 (hashcode_fn t [113] 1) 1
            \<and> HT_get t' (Some [113]) 1 = 30
            \<and> v_ptr (values_arr t' ! loc (index t' ! probe_loc t' (hashcode_fn t [113] 1) 1)) = 20"
      using T n cm g by auto
    then show ?thesis by (intro run_caseI[OF t] conjI r ne n tomb stored)
  qed
qed

subsection \<open>C5: the default hasher\<close>

text \<open>
  Claim C5 says the default hasher is DJB2 over the first \<open>key_len\<close> bytes of the
  key and never processes more than \<open>key_len\<close> bytes. The loop test
  \<^verbatim>\<open>n++ <= key_len\<close> lets one more byte in: for the key \<^verbatim>\<open>"ab"\<close> and \<open>key_len = 1\<close> the
  result is \<open>(5381 * 33 + 97) * 33 + 98\<close>, the hash of both bytes, not the
  \<open>5381 * 33 + 97\<close> of the first byte, and two keys that agree on their first
  \<open>key_len\<close> bytes hash differently.
\<close>

theorem HT_hash_processes_byte_at_key_len:
  "HT_hash [97, 98] 1 = (5381 * 33 + 97) * 33 + 98
    \<and> HT_hash [97] 1 = 5381 * 33 + 97
    \<and> HT_hash [97, 98] 1 \<noteq> HT_hash [97, 99] 1"
  by (simp add: HT_hash_def)

subsection \<open>C6: the writes into the key buffer\<close>

text \<open>
  Claim C6 says that every write of an accepted \<^verbatim>\<open>HT_put\<close> into the 32-byte key
  buffer of the entry has an index below \<open>HT_MAX_KEY_LEN\<close>, for a key of length
  \<open>HT_MAX_KEY_LEN - 1\<close> too. The terminator goes to \<^verbatim>\<open>e->k[key_len + 1]\<close>: for a key
  of 31 bytes, which the validation accepts, that is index 32, outside the
  buffer.
\<close>

theorem HT_put_key_of_31_bytes_overruns:
  "key_write_indices 31 = [0..<31] @ [32]
    \<and> \<not> (32 < HT_MAX_KEY_LEN)
    \<and> HT_put fresh_table (Some (replicate 31 97)) 31 7 True True = Inl (KeyBufferOverrun 32)"
  by (simp add: eval_simps)

subsection \<open>C7: the capacity\<close>

text \<open>
  Claim C7 says that, across any sequence of operations, \<open>cap\<close> never decreases
  and is always a power of two between \<open>HT_DEFAULT_CAPACITY\<close> and
  \<open>HT_MAX_CAPACITY\<close>. \<^verbatim>\<open>HT_new_ex\<close> clamps the requested capacity to
  \<open>HT_MAX_CAPACITY\<close>, but \<^verbatim>\<open>_HT_expand\<close> doubles the capacity without looking at it:
  on the table \<^verbatim>\<open>HT_new(HT_MAX_CAPACITY)\<close> returns, 805306369 puts of new keys bring
  \<open>n\<close> above \<open>expand = 805306368\<close>, and the next put resizes the table to
  \<open>2 * HT_MAX_CAPACITY\<close>.
\<close>

theorem capacity_grows_past_maximum:
  "\<exists>t. reachable t \<and> cap t = 2 * HT_MAX_CAPACITY \<and> HT_MAX_CAPACITY < cap t"
proof -
  have mc: "HT_MAX_CAPACITY = 1073741824" by (simp add: HT_MAX_CAPACITY_def)
  have grow: "\<exists>t. reachable t \<and> cap t = HT_MAX_CAPACITY \<and> expand t = 805306368
      \<and> n_elems t = m \<and> ins_loc t \<le> m \<and> cmp t = strncmp"
    if "m \<le> 805306369" for m
    using that
  proof (induction m)
    case 0
    obtain t where t: "HT_new HT_MAX_CAPACITY True True True = Some t"
      "cap t = HT_MAX_CAPACITY" "expand t = 805306368" "n_elems t = 0" "ins_loc t = 0"
      "cmp t = strncmp"
      using max_table by blast
    have "reachable t" using t(1) by (rule reachable_new)
    then show ?case using t by auto
  next
    case (Suc m)
    then have "m \<le> 805306369" by simp
    then obtain t where t: "reachable t" "cap t = HT_MAX_CAPACITY" "expand t = 805306368"
      "n_elems t = m" "ins_loc t \<le> m" "cmp t = strncmp"
      using Suc.IH by blast
    note inv = reachable_inv[OF t(1)]
    have ne: "\<not> needs_expand t"
      using Suc.prems t(2-5) by (simp add: needs_expand_def mc)
    obtain key where key: "\<forall>e\<in>set (values_arr t). \<not> key_equal t key 30 e"
      using fresh_key_exists[OF inv t(6)] by blast
    have len: "30 + 1 < HT_MAX_KEY_LEN" by (simp add: HT_MAX_KEY_LEN_def)
    obtain t' where t': "HT_put t (Some key) 30 5 True True = Inr (5, t')"
      "n_elems t' = n_elems t + 1" "cap t' = cap t" "expand t' = expand t" "cmp t' = cmp t"
      "ins_loc t' \<le> ins_loc t + 1"
      using put_fresh_key_inserts[OF inv ne key len, of 5 True True] by blast
    have "apply_op t (Put (Some key) 30 5 True True) = Inr t'" using t'(1) by simp
    then have "reachable t'" using t(1) reachable.step by blast
    then show ?case using t t' by auto
  qed
  obtain t where t: "reachable t" "cap t = HT_MAX_CAPACITY" "expand t = 805306368"
    "n_elems t = 805306369"
    using grow[of 805306369] by auto
  note inv = reachable_inv[OF t(1)]
  have ne: "needs_expand t" using t(3,4) by (simp add: needs_expand_def)
  have "cap t \<le> INT_MAX" using t(2) by (simp add: mc INT_MAX_def)
  then obtain t1 where t1: "HT_expand t True True = Inr (Some t1)"
    using HT_expand_ok by blast
  have c1: "cap t1 = 2 * cap t" by (rule HT_expand_result(3)[OF inv t1])
  have len: "1 + 1 < HT_MAX_KEY_LEN" by (simp add: HT_MAX_KEY_LEN_def)
  obtain r t' where t': "put_probe t1 [97] 1 5 (hashcode_fn t1 [97] 1) 0 = Inr (r, t')"
    "cap t' = cap t1"
    using put_probe_no_fault[OF len] by blast
  have "HT_put t (Some [97]) 1 5 True True = Inr (r, t')"
    using ne t1 t'(1) by (simp add: HT_put_def HT_MAX_KEY_LEN_def)
  then have "apply_op t (Put (Some [97]) 1 5 True True) = Inr t'" by simp
  then have "reachable t'" using t(1) reachable.step by blast
  moreover have "cap t' = 2 * HT_MAX_CAPACITY" using t'(2) c1 t(2) by simp
  ultimately show ?thesis by (intro exI[of _ t']) (simp add: mc)
qed

subsection \<open>C8: a failed allocation in a resize\<close>

text \<open>
  Claim C8: when \<^verbatim>\<open>HT_put\<close> triggers a resize and one of the two allocations of
  \<^verbatim>\<open>_HT_expand\<close> fails, \<^verbatim>\<open>_HT_expand\<close> returns \<^verbatim>\<open>NULL\<close>, \<^verbatim>\<open>HT_put\<close> returns the null
  sentinel, and the table afterwards is the table before, field for field and
  array for array; so it is as usable as it was.
\<close>

theorem HT_put_failed_resize_keeps_table:
  assumes "needs_expand t" "key_len \<le> HT_MAX_KEY_LEN - 1" "\<not> (index_ok \<and> values_ok)"
  shows "HT_expand t index_ok values_ok = Inr None
    \<and> HT_put t (Some kb) key_len val index_ok values_ok = Inr (NULL, t)"
  using assms by (auto simp add: HT_put_def HT_expand_def Let_def)

text \<open>
  Witness: after thirteen puts \<open>n = 13\<close> exceeds \<open>expand = 12\<close>; the next put fails
  when the index cannot be allocated, and succeeds on the same table when it can.
\<close>

theorem HT_put_failed_resize_keeps_table_witness:
  "case run fresh_table
      [Put (Some [97]) 1 5 True True, Put (Some [98]) 1 5 True True,
       Put (Some [99]) 1 5 True True, Put (Some [100]) 1 5 True True,
       Put (Some [101]) 1 5 True True, Put (Some [102]) 1 5 True True,
       Put (Some [103]) 1 5 True True, Put (Some [104]) 1 5 True True,
       Put (Some [105]) 1 5 True True, Put (Some [106]) 1 5 True True,
       Put (Some [107]) 1 5 True True, Put (Some [108]) 1 5 True True,
       Put (Some [109]) 1 5 True True] of
     Inl f \<Rightarrow> False
   | Inr t \<Rightarrow>
       needs_expand t \<and> HT_expand t False True = Inr None
       \<and> HT_put t (Some [110]) 1 5 False True = Inr (NULL, t)
       \<and> (case HT_put t (Some [110]) 1 5 True True of
            Inl f \<Rightarrow> False
          | Inr (r, t') \<Rightarrow> r = 5 \<and> cap t' = 32 \<and> n_elems t' = 14)"
proof -
  let ?ops = "[Put (Some [97]) 1 5 True True, Put (Some [98]) 1 5 True True,
       Put (Some [99]) 1 5 True True, Put (Some [100]) 1 5 True True,
       Put (Some [101]) 1 5 True True, Put (Some [102]) 1 5 True True,
       Put (Some [103]) 1 5 True True, Put (Some [104]) 1 5 True True,
       Put (Some [105]) 1 5 True True, Put (Some [106]) 1 5 True True,
       Put (Some [107]) 1 5 True True, Put (Some [108]) 1 5 True True,
       Put (Some [109]) 1 5 True True]"
  have "\<exists>t. run fresh_table ?ops = Inr t \<and> n_elems t = 13 \<and> expand t = 12
      \<and> (case HT_put t (Some [110]) 1 5 True True of
            Inl f \<Rightarrow> False
          | Inr (r, t') \<Rightarrow> r = 5 \<and> cap t' = 32 \<and> n_elems t' = 14)"
    by (simp add: eval_simps)
  then show ?thesis
  proof (elim exE conjE)
    fix t
    assume t: "run fresh_table ?ops = Inr t"
      and f: "n_elems t = 13" "expand t = 12"
      and g: "case HT_put t (Some [110]) 1 5 True True of
            Inl f \<Rightarrow> False
          | Inr (r, t') \<Rightarrow> r = 5 \<and> cap t' = 32 \<and> n_elems t' = 14"
    have n: "needs_expand t" using f by (simp add: needs_expand_def)
    have h: "HT_expand t False True = Inr None
      \<and> HT_put t (Some [110]) 1 5 False True = Inr (NULL, t)"
      by (rule HT_put_failed_resize_keeps_table[OF n]) (simp_all add: HT_MAX_KEY_LEN_def)
    show ?thesis
      by (rule run_caseI[OF t]) (intro conjI n conjunct1[OF h] conjunct2[OF h] g)
  qed
qed

subsection \<open>C9: the deallocator at destruction\<close>

text \<open>
  Claim C9 says that destroying a table calls the deallocator exactly \<open>n\<close> times.
  \<^verbatim>\<open>HT_free\<close> skips a stored null handle (\<^verbatim>\<open>if (value != NULL)\<close>): after
  \<^verbatim>\<open>put("null", NULL)\<close> on a fresh table \<open>n\<close> is 1 and the deallocator is not called.
\<close>

theorem HT_free_skips_null_counterexample:
  "case run fresh_table [Put (Some [110, 117, 108, 108]) 4 NULL True True] of
     Inl f \<Rightarrow> False
   | Inr t \<Rightarrow> reachable t \<and> n_elems t = 1 \<and> HT_free t = Inr []"
proof -
  let ?ops = "[Put (Some [110, 117, 108, 108]) 4 NULL True True]"
  have "\<exists>t. run fresh_table ?ops = Inr t \<and> n_elems t = 1 \<and> HT_free t = Inr []"
    by (simp add: eval_simps)
  then show ?thesis
  proof (elim exE conjE)
    fix t
    assume t: "run fresh_table ?ops = Inr t" and f: "n_elems t = 1" "HT_free t = Inr []"
    have r: "reachable t" using t by (rule reachable_after_run)
    show ?thesis by (rule run_caseI[OF t]) (intro conjI r f)
  qed
qed

text \<open>
  Claim C9 as amended: destroying a reachable table whose capacity the \<^verbatim>\<open>int\<close>
  counter of the loop can reach (every capacity up to \<open>HT_MAX_CAPACITY\<close> is one)
  calls the deallocator once for each OCCUPIED bucket whose value handle is not
  null, with that handle, in index order; the number of calls is \<open>n\<close> less the
  number of OCCUPIED buckets that hold a null handle, so exactly \<open>n\<close> when no
  stored handle is null.
\<close>

theorem HT_free_calls_dealloc_on_nonnull_values:
  assumes "reachable t" "cap t \<le> INT_MAX"
  shows "\<exists>calls. HT_free t = Inr calls
    \<and> calls = map (\<lambda>b. v_ptr (values_arr t ! loc b))
        (filter (\<lambda>b. state b = HT_BUCKET_OCCUPIED \<and> v_ptr (values_arr t ! loc b) \<noteq> NULL)
          (index t))
    \<and> length calls
        + length (filter (\<lambda>b. state b = HT_BUCKET_OCCUPIED \<and> v_ptr (values_arr t ! loc b) = NULL)
            (index t))
      = n_elems t"
proof -
  note inv = reachable_inv[OF assms(1)]
  have "take (cap t) (index t) = index t" using table_invD(2)[OF inv] by simp
  then have "HT_free t = Inr (map (\<lambda>b. v_ptr (values_arr t ! loc b))
        (filter (\<lambda>b. state b = HT_BUCKET_OCCUPIED \<and> v_ptr (values_arr t ! loc b) \<noteq> NULL)
          (index t)))"
    using assms(2) by (simp add: HT_free_def dealloc_calls_concat)
  moreover have "n_elems t = length (filter (\<lambda>b. state b = HT_BUCKET_OCCUPIED) (index t))"
    using table_invD(4)[OF inv] by (simp add: occupied_count_def)
  ultimately show ?thesis using occupied_null_split[of t "index t"] by simp
qed

text \<open>Witness: a table that holds one non-null and one null handle.\<close>

theorem HT_free_calls_dealloc_on_nonnull_values_witness:
  "case run fresh_table
      [Put (Some [97]) 1 10 True True, Put (Some [110, 117, 108, 108]) 4 NULL True True] of
     Inl f \<Rightarrow> False
   | Inr t \<Rightarrow>
       reachable t \<and> cap t \<le> INT_MAX \<and> n_elems t = 2 \<and> HT_free t = Inr [10]
       \<and> length (filter (\<lambda>b. state b = HT_BUCKET_OCCUPIED \<and> v_ptr (values_arr t ! loc b) = NULL)
            (index t)) = 1"
proof -
  let ?ops = "[Put (Some [97]) 1 10 True True, Put (Some [110, 117, 108, 108]) 4 NULL True True]"
  have "\<exists>t. run fresh_table ?ops = Inr t \<and> cap t = 16 \<and> n_elems t = 2 \<and> HT_free t = Inr [10]"
    by (simp add: eval_simps)
  then show ?thesis
  proof (elim exE conjE)
    fix t
    assume t: "run fresh_table ?ops = Inr t"
      and f: "cap t = 16" "n_elems t = 2" "HT_free t = Inr [10]"
    have r: "reachable t" using t by (rule reachable_after_run)
    have c: "cap t \<le> INT_MAX" using f(1) by (simp add: INT_MAX_def)
    have l: "length (filter (\<lambda>b. state b = HT_BUCKET_OCCUPIED
        \<and> v_ptr (values_arr t ! loc b) = NULL) (index t)) = 1"
      using HT_free_calls_dealloc_on_nonnull_values[OF r c] f(2,3) by auto
    show ?thesis by (rule run_caseI[OF t]) (intro conjI r c f(2,3) l)
  qed
qed

subsection \<open>C10: the count field\<close>

text \<open>
  Claim C10: in every table reachable from a construction through puts and
  removes (gets and existence tests leave the table as it is), with the resizes
  the puts trigger, \<open>n\<close> is the number of buckets of the index whose state is
  OCCUPIED.
\<close>

theorem n_counts_occupied:
  assumes "reachable t"
  shows "n_elems t = length (filter (\<lambda>b. state b = HT_BUCKET_OCCUPIED) (index t))"
  using table_invD(4)[OF reachable_inv[OF assms]] by (simp add: occupied_count_def)

text \<open>Witness: the table after two puts that collide and a remove.\<close>

theorem n_counts_occupied_witness:
  "case run fresh_table
      [Put (Some [97]) 1 10 True True, Put (Some [113]) 1 20 True True,
       Remove (Some [97]) 1] of
     Inl f \<Rightarrow> False
   | Inr t \<Rightarrow>
       reachable t \<and> n_elems t = 1
       \<and> n_elems t = length (filter (\<lambda>b. state b = HT_BUCKET_OCCUPIED) (index t))"
proof -
  let ?ops = "[Put (Some [97]) 1 10 True True, Put (Some [113]) 1 20 True True,
       Remove (Some [97]) 1]"
  have "\<exists>t. run fresh_table ?ops = Inr t \<and> n_elems t = 1"
    by (simp add: eval_simps)
  then show ?thesis
  proof (elim exE conjE)
    fix t
    assume t: "run fresh_table ?ops = Inr t" and n: "n_elems t = 1"
    have r: "reachable t" using t by (rule reachable_after_run)
    show ?thesis
      by (rule run_caseI[OF t]) (intro conjI r n n_counts_occupied[OF r])
  qed
qed

end
